theory Spec2Isabelle
  imports Main "HOL-Library.Sublist"
begin

section \<open>Strings: the operations of Python's \<open>str\<close> that \<open>rss_scrape.py\<close> uses\<close>

text \<open>
  \<open>s.split(sep)\<close> for a separator of one character (the script splits on \<open>"?"\<close> and
  on \<open>" "\<close>): the pieces between the separators, in order; never the empty list.
\<close>

fun split_chr :: "char \<Rightarrow> string \<Rightarrow> string list" where
  "split_chr sep [] = [[]]"
| "split_chr sep (c # cs) =
     (if c = sep then [] # split_chr sep cs
      else (case split_chr sep cs of
              [] \<Rightarrow> [[c]]
            | w # ws \<Rightarrow> (c # w) # ws))"

text \<open>\<open>sep.join(pieces)\<close>.\<close>

fun join :: "string \<Rightarrow> string list \<Rightarrow> string" where
  "join sep [] = []"
| "join sep [w] = w"
| "join sep (w # v # ws) = w @ sep @ join sep (v # ws)"

section \<open>Regular expressions: \<open>re.compile(p).search(s)\<close> for the patterns of \<open>parse_entry\<close>\<close>

text \<open>
  The four patterns of \<open>parse_entry\<close> have one shape: an optional \<open>^\<close>, a literal text,
  one group holding a single character class under \<open>+\<close> or \<open>*\<close>, and a literal text:
  \<^verbatim>\<open>>([0-9]+)<\<close>, \<^verbatim>\<open>href="(.*)"\<close>, \<^verbatim>\<open>ecf\.([a-z]+)\.\<close> and \<^verbatim>\<open>^\[(.+)\]\<close>.
  A pattern of that shape is the record below; \<open>at_least\<close> is 1 for \<open>+\<close> and 0 for \<open>*\<close>.
\<close>

record regex =
  anchored :: bool
  before :: string
  cls :: "char \<Rightarrow> bool"
  at_least :: nat
  after :: string

text \<open>
  The quantifier is greedy: at a start position the group first takes the longest run of
  characters of the class, then gives characters back one at a time until the closing
  literal follows (or the run is shorter than \<open>at_least\<close>). \<open>backtrack post lo rest k\<close>
  tries the group lengths \<open>k, k - 1, ..., lo\<close> on \<open>rest\<close>, the text after the opening
  literal.
\<close>

fun backtrack :: "string \<Rightarrow> nat \<Rightarrow> string \<Rightarrow> nat \<Rightarrow> string option" where
  "backtrack post lo rest 0 =
     (if lo = 0 \<and> prefix post rest then Some [] else None)"
| "backtrack post lo rest (Suc k) =
     (if Suc k < lo then None
      else if prefix post (drop (Suc k) rest) then Some (take (Suc k) rest)
      else backtrack post lo rest k)"

text \<open>The match that starts at the first character of \<open>s\<close>, as the text of group 1.\<close>

definition match_at :: "regex \<Rightarrow> string \<Rightarrow> string option" where
  "match_at re s =
     (if prefix (before re) s
      then (let rest = drop (length (before re)) s
            in backtrack (after re) (at_least re) rest (length (takeWhile (cls re) rest)))
      else None)"

text \<open>\<open>search\<close> tries the start positions from left to right, the end of the text included.\<close>

fun search_from :: "regex \<Rightarrow> string \<Rightarrow> string option" where
  "search_from re [] = match_at re []"
| "search_from re (c # cs) =
     (case match_at re (c # cs) of
        Some g \<Rightarrow> Some g
      | None \<Rightarrow> search_from re cs)"

text \<open>
  \<open>^\<close> without \<open>re.MULTILINE\<close> matches at the start of the text only. The result is
  \<open>None\<close> when the search fails and \<open>Some\<close> of \<open>group(1)\<close> otherwise.
\<close>

definition search :: "regex \<Rightarrow> string \<Rightarrow> string option" where
  "search re s = (if anchored re then match_at re s else search_from re s)"

definition is_digit :: "char \<Rightarrow> bool" where
  "is_digit c = (c \<in> set ''0123456789'')"

definition is_lower :: "char \<Rightarrow> bool" where
  "is_lower c = (c \<in> set ''abcdefghijklmnopqrstuvwxyz'')"

text \<open>\<open>.\<close> without \<open>re.DOTALL\<close>: every character but the newline.\<close>

definition is_dot :: "char \<Rightarrow> bool" where
  "is_dot c = (c \<noteq> CHR 0x0A)"

text \<open>\<^verbatim>\<open>re.compile(">([0-9]+)<")\<close>\<close>

definition num_re :: regex where
  "num_re = \<lparr>anchored = False, before = ''>'', cls = is_digit, at_least = 1, after = ''<''\<rparr>"

text \<open>\<^verbatim>\<open>re.compile("href=\"(.*)\"")\<close>; \<open>CHR 0x22\<close> is the double quote.\<close>

definition link_re :: regex where
  "link_re = \<lparr>anchored = False, before = ''href='' @ [CHR 0x22], cls = is_dot, at_least = 0,
               after = [CHR 0x22]\<rparr>"

text \<open>\<^verbatim>\<open>re.compile("ecf\.([a-z]+)\.")\<close>\<close>

definition court_re :: regex where
  "court_re = \<lparr>anchored = False, before = ''ecf.'', cls = is_lower, at_least = 1, after = ''.''\<rparr>"

text \<open>\<^verbatim>\<open>re.compile("^\[(.+)\]")\<close>\<close>

definition description_re :: regex where
  "description_re = \<lparr>anchored = True, before = ''['', cls = is_dot, at_least = 1, after = '']''\<rparr>"

section \<open>Feed entries and \<open>parse_entry\<close>\<close>

text \<open>
  A \<open>time.struct_time\<close> is represented by the Unix time that \<open>time.mktime\<close> returns for
  it, a whole number of seconds.
\<close>

type_synonym struct_time = int

definition mktime :: "struct_time \<Rightarrow> int" where
  "mktime t = t"

text \<open>
  An entry of a parsed feed, with the five fields the script reads:
  \<open>entry['title']\<close>, \<open>entry['link']\<close>, \<open>entry['summary']\<close>, \<open>entry['description']\<close> and
  \<open>entry['published_parsed']\<close>.
\<close>

record entry =
  title :: string
  link :: string
  summary :: string
  description :: string
  published_parsed :: struct_time

text \<open>The dictionary \<open>info\<close> that \<open>parse_entry\<close> returns, one field for each of its keys.\<close>

record info =
  info_num :: string
  info_link :: string
  info_case :: string
  info_court :: string
  info_time :: struct_time
  info_description :: string

text \<open>\<open>m.group(1) if m else "?"\<close>\<close>

definition group1_or_sentinel :: "string option \<Rightarrow> string" where
  "group1_or_sentinel m = (case m of Some g \<Rightarrow> g | None \<Rightarrow> ''?'')"

definition parse_entry :: "entry \<Rightarrow> info" where
  "parse_entry e =
     \<lparr>info_num = group1_or_sentinel (search num_re (description e)),
      info_link = group1_or_sentinel (search link_re (description e)),
      info_case = join '' '' (tl (split_chr CHR '' '' (title e))),
      info_court = group1_or_sentinel (search court_re (link e)),
      info_time = published_parsed e,
      info_description = group1_or_sentinel (search description_re (summary e))\<rparr>"

section \<open>The ancillary files: kill switch and last-seen time\<close>

text \<open>
  A file as \<open>open(path, 'r')\<close> finds it: \<open>Missing\<close> and \<open>Unreadable\<close> make \<open>open\<close> raise
  \<open>IOError\<close>; \<open>Content s\<close> is a file whose text, as the text-mode reader delivers it, is
  \<open>s\<close>. \<open>open(path, 'w')\<close> followed by \<open>write\<close> replaces the file, whatever it was.
\<close>

datatype file_state = Missing | Unreadable | Content string

text \<open>The exceptions that leave the functions modelled here, by class and message.\<close>

datatype error = Exception string | KeyError string | ValueError string

text \<open>
  The effects that a run has on the outside world, in the order they happen: a feed is
  fetched, \<open>LAST_TIME\<close> is read, the notifier is called on an entry, \<open>LAST_TIME\<close> is
  written. Output to the terminal is left out.
\<close>

datatype event = Fetched string | Read_last_time | Notified entry | Wrote int

record world =
  killswitch :: file_state
  lasttime :: file_state
  trace :: "event list"

text \<open>\<open>f.readline()\<close> on a freshly opened file: the first line, its newline included.\<close>

fun readline :: "string \<Rightarrow> string" where
  "readline [] = []"
| "readline (c # cs) = (if c = CHR 0x0A then [c] else c # readline cs)"

text \<open>\<open>str(n)\<close> for an integer: decimal digits, with a minus sign when negative.\<close>

definition digit_chr :: "nat \<Rightarrow> char" where
  "digit_chr d = ''0123456789'' ! d"

fun str_nat :: "nat \<Rightarrow> string" where
  "str_nat n = (if n < 10 then [digit_chr n] else str_nat (n div 10) @ [digit_chr (n mod 10)])"

declare str_nat.simps [simp del]

definition str_int :: "int \<Rightarrow> string" where
  "str_int i = (if i < 0 then ''-'' @ str_nat (nat (- i)) else str_nat (nat i))"

text \<open>
  \<open>int(s)\<close> for a string: white space is stripped at both ends, one sign may lead, and
  the rest must be decimal digits, where single underscores may stand between digits;
  anything else raises \<open>ValueError\<close>.
\<close>

definition is_space :: "char \<Rightarrow> bool" where
  "is_space c = (c \<in> set [CHR 0x09, CHR 0x0A, CHR 0x0B, CHR 0x0C, CHR 0x0D, CHR 0x20])"

definition strip :: "string \<Rightarrow> string" where
  "strip s = rev (dropWhile is_space (rev (dropWhile is_space s)))"

definition digit_val :: "char \<Rightarrow> nat" where
  "digit_val c = of_char c - 48"

definition digits_val :: "string \<Rightarrow> nat" where
  "digits_val ds = foldl (\<lambda>acc c. 10 * acc + digit_val c) 0 ds"

definition nat_of_str :: "string \<Rightarrow> nat option" where
  "nat_of_str body =
     (let groups = split_chr CHR ''_'' body
      in if list_all (\<lambda>w. w \<noteq> [] \<and> list_all is_digit w) groups
         then Some (digits_val (concat groups))
         else None)"

definition int_of_str :: "string \<Rightarrow> error + int" where
  "int_of_str s =
     (let t = strip s;
          negative = (t \<noteq> [] \<and> hd t = CHR ''-'');
          body = (if t \<noteq> [] \<and> (hd t = CHR ''-'' \<or> hd t = CHR ''+'') then tl t else t)
      in case nat_of_str body of
           None \<Rightarrow> Inl (ValueError (''invalid literal for int() with base 10: '' @ s))
         | Some n \<Rightarrow> Inr (if negative then - int n else int n))"

text \<open>
  \<open>kill_switch_set\<close>: the first line of \<open>KILL_SWITCH\<close> is longer than two characters;
  \<open>IOError\<close> is caught and answered with \<open>False\<close>.
\<close>

definition kill_switch_set :: "world \<Rightarrow> bool" where
  "kill_switch_set w =
     (case killswitch w of
        Content s \<Rightarrow> length (readline s) > 2
      | _ \<Rightarrow> False)"

text \<open>\<open>set_kill_switch\<close> writes the line \<open>script disabled\<close>.\<close>

definition set_kill_switch :: "world \<Rightarrow> world" where
  "set_kill_switch w = w\<lparr>killswitch := Content (''script disabled'' @ [CHR 0x0A])\<rparr>"

text \<open>
  \<open>set_last_time(time)\<close> writes \<open>str(int(time)) + "\n"\<close>. The times it is called with
  are results of \<open>time.mktime\<close>, whole numbers here, so that \<open>int(time)\<close> is \<open>time\<close>.
\<close>

definition set_last_time :: "int \<Rightarrow> world \<Rightarrow> world" where
  "set_last_time t w =
     w\<lparr>lasttime := Content (str_int t @ [CHR 0x0A]), trace := trace w @ [Wrote t]\<rparr>"

text \<open>
  \<open>get_last_time\<close>: \<open>int(f.readline())\<close>; \<open>IOError\<close> is caught and answered with 0, the
  \<open>ValueError\<close> of \<open>int\<close> is not caught.
\<close>

definition get_last_time :: "world \<Rightarrow> (error + int) \<times> world" where
  "get_last_time w =
     ((case lasttime w of
         Content s \<Rightarrow> int_of_str (readline s)
       | _ \<Rightarrow> Inr 0),
      w\<lparr>trace := trace w @ [Read_last_time]\<rparr>)"

section \<open>Feeds and \<open>scrape\<close>\<close>

text \<open>
  What \<open>feedparser.parse(url)\<close> returns: \<open>feed['status']\<close>, which is absent when no HTTP
  answer came, \<open>feed['href']\<close> and \<open>feed['entries']\<close>.
\<close>

record feed =
  status :: "int option"
  href :: string
  entries :: "entry list"

text \<open>
  \<open>get_feed\<close>; the parameter \<open>fetch\<close> stands for \<open>feedparser.parse\<close>, the answer of the
  network to each address during the run.
\<close>

definition get_feed :: "(string \<Rightarrow> feed) \<Rightarrow> string \<Rightarrow> world \<Rightarrow> (error + feed) \<times> world" where
  "get_feed fetch url w =
     (let feed = fetch url;
          w' = w\<lparr>trace := trace w @ [Fetched url]\<rparr>
      in case status feed of
           None \<Rightarrow> (Inl (KeyError ''status''), w')
         | Some code \<Rightarrow>
             if code \<noteq> 200
             then (Inl (Exception (''Getting PACER RSS feed '' @ href feed @
                                   '' failed with code '' @ str_int code @ ''.'')), w')
             else (Inr feed, w'))"

text \<open>\<^verbatim>\<open>"https://ecf.{}.uscourts.gov/cgi-bin/rss_outside.pl".format(court)\<close>\<close>

definition feed_url :: "string \<Rightarrow> string" where
  "feed_url court = ''https://ecf.'' @ court @ ''.uscourts.gov/cgi-bin/rss_outside.pl''"

text \<open>
  The dictionary \<open>cases\<close> is an association list with the courts in the order of the
  dictionary; a dictionary has each key once. The comprehension that builds \<open>pacer_feeds\<close>
  calls \<open>get_feed\<close> for the courts in that order and ends at the first exception.
\<close>

type_synonym watchlist = "(string \<times> string list) list"

fun load_feeds ::
  "(string \<Rightarrow> feed) \<Rightarrow> string list \<Rightarrow> world \<Rightarrow> (error + (string \<times> feed) list) \<times> world" where
  "load_feeds fetch [] w = (Inr [], w)"
| "load_feeds fetch (court # courts) w =
     (case get_feed fetch (feed_url court) w of
        (Inl err, w') \<Rightarrow> (Inl err, w')
      | (Inr feed, w') \<Rightarrow>
          (case load_feeds fetch courts w' of
             (Inl err, w'') \<Rightarrow> (Inl err, w'')
           | (Inr feeds, w'') \<Rightarrow> (Inr ((court, feed) # feeds), w'')))"

text \<open>
  The notifier that \<open>make_notifier\<close> builds catches every \<open>Exception\<close> of its channels and
  touches neither file: a call is the event \<open>Notified\<close>.
\<close>

definition notifier :: "entry \<Rightarrow> world \<Rightarrow> world" where
  "notifier e w = w\<lparr>trace := trace w @ [Notified e]\<rparr>"

text \<open>\<open>entry['link'].split("?")[-1]\<close>\<close>

definition case_id :: "entry \<Rightarrow> string" where
  "case_id e = last (split_chr CHR ''?'' (link e))"

text \<open>The inner loop of \<open>scrape\<close>, over the entries of one feed; \<open>ids\<close> is \<open>cases[court]\<close>.\<close>

fun check_entries :: "int \<Rightarrow> string list \<Rightarrow> entry list \<Rightarrow> world \<Rightarrow> world" where
  "check_entries last_seen ids [] w = w"
| "check_entries last_seen ids (e # es) w =
     (if mktime (published_parsed e) \<le> last_seen then w
      else if case_id e \<in> set ids
      then check_entries last_seen ids es
             (set_last_time (mktime (published_parsed e)) (notifier e w))
      else check_entries last_seen ids es w)"

text \<open>The outer loop, over \<open>pacer_feeds.items()\<close>.\<close>

fun check_courts ::
  "watchlist \<Rightarrow> int \<Rightarrow> (string \<times> feed) list \<Rightarrow> world \<Rightarrow> (error + unit) \<times> world" where
  "check_courts cases last_seen [] w = (Inr (), w)"
| "check_courts cases last_seen ((court, feed) # feeds) w =
     (case map_of cases court of
        None \<Rightarrow> (Inl (KeyError court), w)
      | Some ids \<Rightarrow>
          check_courts cases last_seen feeds (check_entries last_seen ids (entries feed) w))"

definition scrape :: "watchlist \<Rightarrow> (string \<Rightarrow> feed) \<Rightarrow> world \<Rightarrow> (error + unit) \<times> world" where
  "scrape cases fetch w =
     (case load_feeds fetch (map fst cases) w of
        (Inl err, w1) \<Rightarrow> (Inl err, w1)
      | (Inr pacer_feeds, w1) \<Rightarrow>
          (case get_last_time w1 of
             (Inl err, w2) \<Rightarrow> (Inl err, w2)
           | (Inr last_seen, w2) \<Rightarrow> check_courts cases last_seen pacer_feeds w2))"

section \<open>What the properties are stated with\<close>

subsection \<open>Occurrences of a pattern\<close>

text \<open>
  The pattern \<open>re\<close> occurs in \<open>s\<close> after the prefix \<open>a\<close> with group text \<open>g\<close>: \<open>s\<close> is
  \<open>a\<close>, the opening literal, \<open>g\<close>, the closing literal and some rest; \<open>g\<close> consists of
  characters of the class and is long enough for the quantifier; an anchored pattern
  occurs at the start only.
\<close>

definition occurs_at :: "regex \<Rightarrow> string \<Rightarrow> string \<Rightarrow> string \<Rightarrow> bool" where
  "occurs_at re s a g \<longleftrightarrow>
     (\<exists>b. s = a @ before re @ g @ after re @ b) \<and> list_all (cls re) g \<and>
     at_least re \<le> length g \<and> (anchored re \<longrightarrow> a = [])"

text \<open>The same for an occurrence at the first character of \<open>t\<close>, anchored or not.\<close>

definition starts_with :: "regex \<Rightarrow> string \<Rightarrow> string \<Rightarrow> bool" where
  "starts_with re t g \<longleftrightarrow>
     prefix (before re @ g @ after re) t \<and> list_all (cls re) g \<and> at_least re \<le> length g"

definition occurs :: "regex \<Rightarrow> string \<Rightarrow> bool" where
  "occurs re s \<longleftrightarrow> (\<exists>a g. occurs_at re s a g)"

text \<open>
  \<open>g\<close> is the group of the leftmost occurrence and, among the occurrences that start
  there, of the longest.
\<close>

definition first_longest :: "regex \<Rightarrow> string \<Rightarrow> string \<Rightarrow> bool" where
  "first_longest re s g \<longleftrightarrow>
     (\<exists>a. occurs_at re s a g \<and>
          (\<forall>a' g'. occurs_at re s a' g' \<longrightarrow>
             length a < length a' \<or> (length a' = length a \<and> length g' \<le> length g)))"

text \<open>
  The court as the specification words it, to compare \<open>parse_entry\<close> with: the text of
  the link between the first \<open>ecf.\<close> and the next \<open>.\<close>, and \<open>?\<close> when there is none.
\<close>

fun after_text :: "string \<Rightarrow> string \<Rightarrow> string option" where
  "after_text needle [] = (if needle = [] then Some [] else None)"
| "after_text needle (c # cs) =
     (if prefix needle (c # cs) then Some (drop (length needle) (c # cs))
      else after_text needle cs)"

definition court_by_spec :: "string \<Rightarrow> string" where
  "court_by_spec url =
     (case after_text ''ecf.'' url of
        None \<Rightarrow> ''?''
      | Some rest \<Rightarrow>
          if CHR ''.'' \<in> set rest then takeWhile (\<lambda>c. c \<noteq> CHR ''.'') rest else ''?'')"

subsection \<open>Reading a trace\<close>

text \<open>The entries the notifier was called on, the times written and the addresses fetched.\<close>

fun notified :: "event list \<Rightarrow> entry list" where
  "notified [] = []"
| "notified (Notified e # evs) = e # notified evs"
| "notified (ev # evs) = notified evs"

fun written :: "event list \<Rightarrow> int list" where
  "written [] = []"
| "written (Wrote t # evs) = t # written evs"
| "written (ev # evs) = written evs"

fun fetched :: "event list \<Rightarrow> string list" where
  "fetched [] = []"
| "fetched (Fetched url # evs) = url # fetched evs"
| "fetched (ev # evs) = fetched evs"

text \<open>The events of a run that starts in \<open>w\<close> and ends in \<open>w'\<close>.\<close>

definition during :: "world \<Rightarrow> world \<Rightarrow> event list" where
  "during w w' = drop (length (trace w)) (trace w')"

text \<open>The persisted watermark of a world: what \<open>get_last_time\<close> answers there.\<close>

definition watermark :: "world \<Rightarrow> error + int" where
  "watermark w = fst (get_last_time w)"

text \<open>
  The entries of a feed that the inner loop reaches before its \<open>break\<close>, and those among
  some entries whose case is on the list \<open>ids\<close>.
\<close>

definition considered :: "int \<Rightarrow> entry list \<Rightarrow> entry list" where
  "considered last_seen es = takeWhile (\<lambda>e. last_seen < mktime (published_parsed e)) es"

definition matching :: "string list \<Rightarrow> entry list \<Rightarrow> entry list" where
  "matching ids es = filter (\<lambda>e. case_id e \<in> set ids) es"



text \<open>The fetch of a court's feed succeeds: the feed has status 200.\<close>

definition ok_feed :: "(string \<Rightarrow> feed) \<Rightarrow> string \<Rightarrow> bool" where
  "ok_feed fetch court \<longleftrightarrow> status (fetch (feed_url court)) = Some 200"

text \<open>The events of the three phases of a run: fetching, and a match in the loops.\<close>

definition fetch_events :: "string list \<Rightarrow> event list" where
  "fetch_events courts = map (\<lambda>c. Fetched (feed_url c)) courts"

definition match_events :: "entry list \<Rightarrow> event list" where
  "match_events es = concat (map (\<lambda>e. [Notified e, Wrote (mktime (published_parsed e))]) es)"

definition court_events :: "watchlist \<Rightarrow> int \<Rightarrow> (string \<times> feed) list \<Rightarrow> event list" where
  "court_events cases W feeds =
     concat (map (\<lambda>(court, feed).
        match_events (matching (the (map_of cases court)) (considered W (entries feed)))) feeds)"

text \<open>
  The calls of the notifier on an entry whose publication time is not above the
  watermark persisted at the moment of the call; \<open>cur\<close> is the watermark persisted when
  the events begin, and each write replaces it.
\<close>

fun notified_stale :: "int \<Rightarrow> event list \<Rightarrow> entry list" where
  "notified_stale cur [] = []"
| "notified_stale cur (Wrote t # evs) = notified_stale t evs"
| "notified_stale cur (Notified e # evs) =
     (if mktime (published_parsed e) \<le> cur then e # notified_stale cur evs
      else notified_stale cur evs)"
| "notified_stale cur (ev # evs) = notified_stale cur evs"

text \<open>
  A sequence of runs, one for each element of the list: the answers of the network
  during that run. Each run starts in the world that the run before it left.
\<close>

fun scrape_runs :: "watchlist \<Rightarrow> (string \<Rightarrow> feed) list \<Rightarrow> world \<Rightarrow> world" where
  "scrape_runs cases [] w = w"
| "scrape_runs cases (fetch # later) w = scrape_runs cases later (snd (scrape cases fetch w))"

subsection \<open>Sample inputs\<close>

text \<open>
  Two filings in case 280638 of the Northern District of Illinois, published at the
  times 1000 and 900; a filing of an appellate court; a filing without markup.
\<close>

definition newer_filing :: entry where
  "newer_filing =
     \<lparr>title = ''1:13-cv-00207 Duffy v. Godfread et al'',
      link = ''https://ecf.ilnd.uscourts.gov/cgi-bin/DktRpt.pl?280638'',
      summary = ''[Order on Motion to Dismiss] (<a href=x>52</a>)'',
      description = ''[Order on Motion to Dismiss] (<a href=x>52</a>)'',
      published_parsed = 1000\<rparr>"

definition older_filing :: entry where
  "older_filing =
     \<lparr>title = ''1:13-cv-00207 Duffy v. Godfread et al'',
      link = ''https://ecf.ilnd.uscourts.gov/cgi-bin/DktRpt.pl?280638'',
      summary = ''[Motion to Dismiss] (<a href=x>51</a>)'',
      description = ''[Motion to Dismiss] (<a href=x>51</a>)'',
      published_parsed = 900\<rparr>"

definition appeals_entry :: entry where
  "appeals_entry =
     \<lparr>title = ''13-1234 Doe v. Roe'',
      link = ''https://ecf.ca9.uscourts.gov/docs1/009026'',
      summary = ''[Order] (12)'',
      description = ''[Order] (12)'',
      published_parsed = 1000\<rparr>"

definition district_entry :: entry where
  "district_entry =
     \<lparr>title = ''13-cv-50286 Malibu Media v. Doe'',
      link = ''https://ecf.ilnd.uscourts.gov/doc1/067113'',
      summary = ''no brackets'',
      description = ''no markup'',
      published_parsed = 1000\<rparr>"

text \<open>A watchlist of one court and one case, three answers of the network, an empty disk.\<close>

definition ilnd_cases :: watchlist where
  "ilnd_cases = [(''ilnd'', [''280638''])]"

definition one_filing :: "string \<Rightarrow> feed" where
  "one_filing url = \<lparr>status = Some 200, href = url, entries = [newer_filing]\<rparr>"

definition two_filings :: "string \<Rightarrow> feed" where
  "two_filings url = \<lparr>status = Some 200, href = url, entries = [newer_filing, older_filing]\<rparr>"

definition not_found :: "string \<Rightarrow> feed" where
  "not_found url = \<lparr>status = Some 404, href = url, entries = []\<rparr>"

definition fresh_world :: world where
  "fresh_world = \<lparr>killswitch = Missing, lasttime = Missing, trace = []\<rparr>"

section \<open>The search finds the leftmost, longest occurrence\<close>

text \<open>
  \<open>backtrack\<close> fails exactly when no group length in its range is followed by the
  closing literal, and otherwise returns the group of the greatest such length.
\<close>

lemma backtrack_None:
  "backtrack post lo rest k = None \<longleftrightarrow> (\<forall>j. lo \<le> j \<and> j \<le> k \<longrightarrow> \<not> prefix post (drop j rest))"
proof (induction k)
  case 0
  then show ?case by auto
next
  case (Suc k)
  show ?case
  proof (cases "Suc k < lo")
    case True
    then show ?thesis by auto
  next
    case False
    show ?thesis
    proof (cases "prefix post (drop (Suc k) rest)")
      case True
      with False have "backtrack post lo rest (Suc k) \<noteq> None" by simp
      moreover have "lo \<le> Suc k \<and> Suc k \<le> Suc k" using False by simp
      ultimately show ?thesis using True by blast
    next
      case nop: False
      with False have "backtrack post lo rest (Suc k) = backtrack post lo rest k" by simp
      with Suc nop show ?thesis by (auto simp: le_Suc_eq)
    qed
  qed
qed

lemma backtrack_Some:
  "backtrack post lo rest k = Some g \<Longrightarrow>
     \<exists>j. lo \<le> j \<and> j \<le> k \<and> g = take j rest \<and> prefix post (drop j rest) \<and>
         (\<forall>i. j < i \<and> i \<le> k \<longrightarrow> \<not> prefix post (drop i rest))"
proof (induction k)
  case 0
  then show ?case by (auto split: if_splits)
next
  case (Suc k)
  show ?case
  proof (cases "prefix post (drop (Suc k) rest)")
    case True
    with Suc.prems show ?thesis by (auto split: if_splits intro!: exI[of _ "Suc k"])
  next
    case False
    with Suc.prems have "backtrack post lo rest k = Some g" by (auto split: if_splits)
    from Suc.IH[OF this] obtain j where j: "lo \<le> j" "j \<le> k" "g = take j rest" "prefix post (drop j rest)"
      "\<forall>i. j < i \<and> i \<le> k \<longrightarrow> \<not> prefix post (drop i rest)" by blast
    with False show ?thesis by (intro exI[of _ j]) (auto simp: le_Suc_eq)
  qed
qed

lemma run_bound: "list_all P g \<Longrightarrow> length g \<le> length (takeWhile P (g @ t))"
  by (induction g) auto

lemma take_run:
  "j \<le> length (takeWhile P rest) \<Longrightarrow> list_all P (take j rest) \<and> length (take j rest) = j"
proof (induction rest arbitrary: j)
  case Nil
  then show ?case by simp
next
  case (Cons c cs)
  then show ?case by (cases j) (auto split: if_splits)
qed

lemma match_at_None: "match_at re t = None \<longleftrightarrow> (\<forall>g. \<not> starts_with re t g)"
proof
  assume n: "match_at re t = None"
  show "\<forall>g. \<not> starts_with re t g"
  proof (intro allI notI)
    fix g assume "starts_with re t g"
    then obtain b where t: "t = before re @ g @ after re @ b" and g: "list_all (cls re) g" "at_least re \<le> length g"
      by (auto simp: starts_with_def prefix_def)
    let ?rest = "drop (length (before re)) t"
    have rest: "?rest = g @ after re @ b" using t by simp
    have "length g \<le> length (takeWhile (cls re) ?rest)" unfolding rest using g(1) by (rule run_bound)
    moreover have "prefix (after re) (drop (length g) ?rest)" unfolding rest by simp
    moreover have "backtrack (after re) (at_least re) ?rest (length (takeWhile (cls re) ?rest)) = None"
      using n t by (simp add: match_at_def Let_def)
    ultimately show False using g(2) unfolding backtrack_None by blast
  qed
next
  assume a: "\<forall>g. \<not> starts_with re t g"
  show "match_at re t = None"
  proof (rule ccontr)
    assume "match_at re t \<noteq> None"
    then obtain g where m: "match_at re t = Some g" by blast
    let ?rest = "drop (length (before re)) t"
    from m have p: "prefix (before re) t"
      and bt: "backtrack (after re) (at_least re) ?rest (length (takeWhile (cls re) ?rest)) = Some g"
      by (auto simp: match_at_def Let_def split: if_splits)
    from backtrack_Some[OF bt] obtain j where j: "at_least re \<le> j" "j \<le> length (takeWhile (cls re) ?rest)"
      "g = take j ?rest" "prefix (after re) (drop j ?rest)" by blast
    from take_run[OF j(2)] j(3) have g: "list_all (cls re) g" "length g = j" by auto
    from j(4) obtain b where "drop j ?rest = after re @ b" by (auto simp: prefix_def)
    then have "?rest = g @ after re @ b" using j(3) by (metis append_take_drop_id)
    moreover from p have "t = before re @ ?rest" by (auto simp: prefix_def)
    ultimately have "t = before re @ g @ after re @ b" by simp
    then have "starts_with re t g" using g j(1) by (simp add: starts_with_def)
    with a show False by blast
  qed
qed

lemma match_at_Some:
  assumes "match_at re t = Some g"
  shows "starts_with re t g \<and> (\<forall>g'. starts_with re t g' \<longrightarrow> length g' \<le> length g)"
proof -
  let ?rest = "drop (length (before re)) t"
  from assms have p: "prefix (before re) t"
    and bt: "backtrack (after re) (at_least re) ?rest (length (takeWhile (cls re) ?rest)) = Some g"
    by (auto simp: match_at_def Let_def split: if_splits)
  from backtrack_Some[OF bt] obtain j where j: "at_least re \<le> j" "j \<le> length (takeWhile (cls re) ?rest)"
    "g = take j ?rest" "prefix (after re) (drop j ?rest)"
    and mx: "\<forall>i. j < i \<and> i \<le> length (takeWhile (cls re) ?rest) \<longrightarrow> \<not> prefix (after re) (drop i ?rest)" by blast
  from take_run[OF j(2)] j(3) have g: "list_all (cls re) g" "length g = j" by auto
  from j(4) obtain b where "drop j ?rest = after re @ b" by (auto simp: prefix_def)
  then have "?rest = g @ after re @ b" using j(3) by (metis append_take_drop_id)
  moreover from p have "t = before re @ ?rest" by (auto simp: prefix_def)
  ultimately have "t = before re @ g @ after re @ b" by simp
  then have s: "starts_with re t g" using g j(1) by (simp add: starts_with_def)
  have "length g' \<le> length g" if "starts_with re t g'" for g'
  proof -
    from that obtain b' where t: "t = before re @ g' @ after re @ b'" and g': "list_all (cls re) g'"
      by (auto simp: starts_with_def prefix_def)
    have rest: "?rest = g' @ after re @ b'" using t by simp
    have "length g' \<le> length (takeWhile (cls re) ?rest)" unfolding rest using g' by (rule run_bound)
    moreover have "prefix (after re) (drop (length g') ?rest)" unfolding rest by simp
    ultimately show ?thesis using mx g(2) by (metis not_le_imp_less)
  qed
  with s show ?thesis by blast
qed

lemma search_from_None:
  "search_from re s = None \<longleftrightarrow> (\<forall>a t. s = a @ t \<longrightarrow> match_at re t = None)"
proof (induction s)
  case Nil
  then show ?case by simp
next
  case (Cons c cs)
  show ?case
  proof
    assume n: "search_from re (c # cs) = None"
    then have h: "match_at re (c # cs) = None" and r: "search_from re cs = None"
      by (auto split: option.splits)
    show "\<forall>a t. c # cs = a @ t \<longrightarrow> match_at re t = None"
    proof (intro allI impI)
      fix a t assume e: "c # cs = a @ t"
      show "match_at re t = None"
      proof (cases a)
        case Nil
        with e h show ?thesis by simp
      next
        case (Cons x a')
        with e have "cs = a' @ t" by simp
        with r Cons.IH show ?thesis by blast
      qed
    qed
  next
    assume a: "\<forall>a t. c # cs = a @ t \<longrightarrow> match_at re t = None"
    then have "match_at re (c # cs) = None" by (metis append_Nil)
    moreover have "\<forall>a t. cs = a @ t \<longrightarrow> match_at re t = None"
      using a by (metis append_Cons)
    ultimately show "search_from re (c # cs) = None" using Cons.IH by simp
  qed
qed

lemma search_from_Some:
  "search_from re s = Some g \<Longrightarrow>
     \<exists>a t. s = a @ t \<and> match_at re t = Some g \<and>
           (\<forall>a' t'. s = a' @ t' \<and> length a' < length a \<longrightarrow> match_at re t' = None)"
proof (induction s)
  case Nil
  then show ?case by simp
next
  case (Cons c cs)
  show ?case
  proof (cases "match_at re (c # cs)")
    case (Some g')
    with Cons.prems have "match_at re (c # cs) = Some g" by simp
    then show ?thesis by (intro exI[of _ "[]"] exI[of _ "c # cs"]) simp
  next
    case None
    with Cons.prems have "search_from re cs = Some g" by simp
    from Cons.IH[OF this] obtain a t where at: "cs = a @ t" "match_at re t = Some g"
      "\<forall>a' t'. cs = a' @ t' \<and> length a' < length a \<longrightarrow> match_at re t' = None" by blast
    have "match_at re t' = None" if "c # cs = a' @ t'" "length a' < length (c # a)" for a' t'
    proof (cases a')
      case Nil
      with that None show ?thesis by simp
    next
      case (Cons x a'')
      with that have "cs = a'' @ t'" "length a'' < length a" by auto
      with at(3) show ?thesis by blast
    qed
    with at(1,2) show ?thesis by (intro exI[of _ "c # a"] exI[of _ t]) auto
  qed
qed

lemma occurs_at_iff:
  "occurs_at re s a g \<longleftrightarrow>
     (\<exists>t. s = a @ t \<and> starts_with re t g) \<and> (anchored re \<longrightarrow> a = [])"
  by (auto simp: occurs_at_def starts_with_def prefix_def)

lemma search_None: "search re s = None \<longleftrightarrow> \<not> occurs re s"
proof (cases "anchored re")
  case True
  have "occurs re s \<longleftrightarrow> (\<exists>g. starts_with re s g)"
    using True by (auto simp: occurs_def occurs_at_iff)
  then show ?thesis using True by (simp add: search_def match_at_None)
next
  case False
  have "occurs re s \<longleftrightarrow> (\<exists>a t g. s = a @ t \<and> starts_with re t g)"
    using False by (auto simp: occurs_def occurs_at_iff)
  then show ?thesis using False by (auto simp: search_def search_from_None match_at_None)
qed

lemma search_Some:
  assumes "search re s = Some g"
  shows "first_longest re s g"
proof (cases "anchored re")
  case True
  with assms have "match_at re s = Some g" by (simp add: search_def)
  from match_at_Some[OF this] have "starts_with re s g"
    and mx: "\<forall>g'. starts_with re s g' \<longrightarrow> length g' \<le> length g" by auto
  then have "occurs_at re s [] g" by (simp add: occurs_at_iff)
  moreover have "length g' \<le> length g \<and> a' = []" if "occurs_at re s a' g'" for a' g'
    using that True mx by (auto simp: occurs_at_iff)
  ultimately show ?thesis unfolding first_longest_def by (intro exI[of _ "[]"]) auto
next
  case False
  with assms have "search_from re s = Some g" by (simp add: search_def)
  from search_from_Some[OF this] obtain a t where at: "s = a @ t" "match_at re t = Some g"
    and lm: "\<forall>a' t'. s = a' @ t' \<and> length a' < length a \<longrightarrow> match_at re t' = None" by blast
  from match_at_Some[OF at(2)] have st: "starts_with re t g"
    and mx: "\<forall>g'. starts_with re t g' \<longrightarrow> length g' \<le> length g" by auto
  have o: "occurs_at re s a g" using at(1) st False by (auto simp: occurs_at_iff)
  have "length a < length a' \<or> (length a' = length a \<and> length g' \<le> length g)"
    if "occurs_at re s a' g'" for a' g'
  proof -
    from that obtain t' where t': "s = a' @ t'" "starts_with re t' g'" by (auto simp: occurs_at_iff)
    then have nn: "match_at re t' \<noteq> None" by (auto simp: match_at_None)
    have ge: "length a \<le> length a'"
    proof (rule ccontr)
      assume "\<not> length a \<le> length a'"
      then have "s = a' @ t' \<and> length a' < length a" using t'(1) by simp
      with lm have "match_at re t' = None" by blast
      with nn show False by simp
    qed
    show ?thesis
    proof (cases "length a' = length a")
      case True
      with at(1) t'(1) have "t' = t" by (metis append_eq_append_conv)
      with t'(2) mx True show ?thesis by simp
    next
      case False
      with ge show ?thesis by simp
    qed
  qed
  with o show ?thesis unfolding first_longest_def by blast
qed

lemma first_longest_unique:
  assumes "first_longest re s g" "first_longest re s h"
  shows "g = h"
proof -
  from assms(1) obtain a where a: "occurs_at re s a g"
    "\<forall>a' g'. occurs_at re s a' g' \<longrightarrow> length a < length a' \<or> (length a' = length a \<and> length g' \<le> length g)"
    unfolding first_longest_def by blast
  from assms(2) obtain b where b: "occurs_at re s b h"
    "\<forall>a' g'. occurs_at re s a' g' \<longrightarrow> length b < length a' \<or> (length a' = length b \<and> length g' \<le> length h)"
    unfolding first_longest_def by blast
  from a(2) b(1) have 1: "length a < length b \<or> (length b = length a \<and> length h \<le> length g)" by blast
  from b(2) a(1) have 2: "length b < length a \<or> (length a = length b \<and> length g \<le> length h)" by blast
  from 1 2 have l: "length a = length b" "length g = length h" by auto
  from a(1) obtain x where x: "s = a @ before re @ g @ x" by (auto simp: occurs_at_def)
  from b(1) obtain y where y: "s = b @ before re @ h @ y" by (auto simp: occurs_at_def)
  from x y l(1) have "before re @ g @ x = before re @ h @ y" by (metis append_eq_append_conv)
  then have "g @ x = h @ y" by simp
  with l(2) show ?thesis by simp
qed

lemma search_iff: "search re s = Some g \<longleftrightarrow> first_longest re s g"
proof
  assume "search re s = Some g"
  then show "first_longest re s g" by (rule search_Some)
next
  assume f: "first_longest re s g"
  then have "occurs re s" unfolding first_longest_def occurs_def by blast
  then obtain h where h: "search re s = Some h" using search_None by (metis not_Some_eq)
  from search_Some[OF h] f have "h = g" by (rule first_longest_unique)
  with h show "search re s = Some g" by simp
qed

lemmas regex_defs = num_re_def link_re_def court_re_def description_re_def
  is_digit_def is_lower_def is_dot_def search_def match_at_def group1_or_sentinel_def

text \<open>
  For the court pattern the group at a start position is determined: the closing \<open>.\<close>
  is not a lower-case letter.
\<close>

lemma court_occurs_at:
  "occurs_at court_re s a g \<longleftrightarrow>
     (\<exists>b. s = a @ ''ecf.'' @ g @ ''.'' @ b) \<and> g \<noteq> [] \<and> list_all is_lower g"
  by (auto simp: occurs_at_def court_re_def Suc_le_eq)

lemma run_unique:
  "list_all P g \<Longrightarrow> list_all P h \<Longrightarrow> \<not> P c \<Longrightarrow> g @ c # x = h @ c # y \<Longrightarrow> g = h"
proof (induction g arbitrary: h)
  case Nil
  then show ?case by (cases h) auto
next
  case (Cons d g)
  then show ?case by (cases h) auto
qed

section \<open>The trace of a run\<close>

lemma notified_append: "notified (xs @ ys) = notified xs @ notified ys"
  by (induction xs rule: notified.induct) simp_all

lemma written_append: "written (xs @ ys) = written xs @ written ys"
  by (induction xs rule: written.induct) simp_all

lemma fetched_append: "fetched (xs @ ys) = fetched xs @ fetched ys"
  by (induction xs rule: fetched.induct) simp_all

lemma match_events_Cons:
  "match_events (e # es) = Notified e # Wrote (mktime (published_parsed e)) # match_events es"
  by (simp add: match_events_def)

lemma match_events_Nil: "match_events [] = []"
  by (simp add: match_events_def)

lemma notified_match_events: "notified (match_events es) = es"
  by (induction es) (simp_all add: match_events_Cons match_events_Nil)

lemma written_match_events: "written (match_events es) = map (\<lambda>e. mktime (published_parsed e)) es"
  by (induction es) (simp_all add: match_events_Cons match_events_Nil)

lemma fetched_match_events: "fetched (match_events es) = []"
  by (induction es) (simp_all add: match_events_Cons match_events_Nil)

lemma notified_fetch_events: "notified (fetch_events cs) = []"
  by (induction cs) (simp_all add: fetch_events_def)

lemma written_fetch_events: "written (fetch_events cs) = []"
  by (induction cs) (simp_all add: fetch_events_def)


lemma fetched_court_events: "fetched (court_events cases W feeds) = []"
  by (induction feeds) (auto simp: court_events_def fetched_append fetched_match_events)

lemma feed_url_inj: "feed_url a = feed_url b \<Longrightarrow> a = b"
  by (simp add: feed_url_def)

lemma count_fetch_events:
  "count_list (fetch_events cs) (Fetched (feed_url c)) = count_list cs c"
  by (induction cs) (auto simp: fetch_events_def dest: feed_url_inj)

lemma during_append: "trace w' = trace w @ evs \<Longrightarrow> during w w' = evs"
  by (simp add: during_def)

lemma watermark_trace: "watermark (w\<lparr>trace := tr\<rparr>) = watermark w"
  by (simp add: watermark_def get_last_time_def)

lemma get_last_time_eq:
  "get_last_time w = (watermark w, w\<lparr>trace := trace w @ [Read_last_time]\<rparr>)"
  by (simp add: watermark_def get_last_time_def)

subsection \<open>The inner loop\<close>

lemma check_entries_trace:
  "trace (check_entries W ids es w) = trace w @ match_events (matching ids (considered W es))"
proof (induction es arbitrary: w)
  case Nil
  then show ?case by (simp add: matching_def considered_def match_events_Nil)
next
  case (Cons e es)
  show ?case
  proof (cases "mktime (published_parsed e) \<le> W")
    case True
    then show ?thesis by (simp add: matching_def considered_def match_events_Nil)
  next
    case False
    then have c: "considered W (e # es) = e # considered W es" by (simp add: considered_def)
    show ?thesis
    proof (cases "case_id e \<in> set ids")
      case True
      then show ?thesis using False Cons.IH c
        by (simp add: matching_def match_events_Cons set_last_time_def notifier_def)
    next
      case no: False
      then show ?thesis using False Cons.IH c by (simp add: matching_def)
    qed
  qed
qed

lemma check_entries_killswitch: "killswitch (check_entries W ids es w) = killswitch w"
  by (induction es arbitrary: w) (simp_all add: set_last_time_def notifier_def)

subsection \<open>Loading the feeds\<close>

lemma get_feed_ok:
  "status (fetch url) = Some 200 \<Longrightarrow>
     get_feed fetch url w = (Inr (fetch url), w\<lparr>trace := trace w @ [Fetched url]\<rparr>)"
  by (simp add: get_feed_def Let_def)

lemma get_feed_fail:
  "status (fetch url) \<noteq> Some 200 \<Longrightarrow>
     \<exists>err. get_feed fetch url w = (Inl err, w\<lparr>trace := trace w @ [Fetched url]\<rparr>) \<and>
           (\<forall>code. status (fetch url) = Some code \<longrightarrow>
              err = Exception (''Getting PACER RSS feed '' @ href (fetch url) @
                               '' failed with code '' @ str_int code @ ''.''))"
  by (cases "status (fetch url)") (simp_all add: get_feed_def Let_def)

lemma load_feeds_ok:
  "\<forall>c\<in>set courts. ok_feed fetch c \<Longrightarrow>
     load_feeds fetch courts w =
       (Inr (map (\<lambda>c. (c, fetch (feed_url c))) courts),
        w\<lparr>trace := trace w @ map (\<lambda>c. Fetched (feed_url c)) courts\<rparr>)"
proof (induction courts arbitrary: w)
  case Nil
  then show ?case by simp
next
  case (Cons c courts)
  then have "status (fetch (feed_url c)) = Some 200" by (simp add: ok_feed_def)
  then have "get_feed fetch (feed_url c) w =
      (Inr (fetch (feed_url c)), w\<lparr>trace := trace w @ [Fetched (feed_url c)]\<rparr>)"
    by (rule get_feed_ok)
  with Cons show ?case by simp
qed

lemma load_feeds_fail:
  assumes "\<forall>c\<in>set pre. ok_feed fetch c" "\<not> ok_feed fetch bad"
  shows "\<exists>err. load_feeds fetch (pre @ bad # post) w =
           (Inl err, w\<lparr>trace := trace w @ map (\<lambda>c. Fetched (feed_url c)) (pre @ [bad])\<rparr>) \<and>
           (\<forall>code. status (fetch (feed_url bad)) = Some code \<longrightarrow>
              err = Exception (''Getting PACER RSS feed '' @ href (fetch (feed_url bad)) @
                               '' failed with code '' @ str_int code @ ''.''))"
  using assms(1)
proof (induction pre arbitrary: w)
  case Nil
  from assms(2) have "status (fetch (feed_url bad)) \<noteq> Some 200" by (simp add: ok_feed_def)
  then show ?case using get_feed_fail[of fetch "feed_url bad" w] by auto
next
  case (Cons c pre)
  then have "status (fetch (feed_url c)) = Some 200" by (simp add: ok_feed_def)
  then have g: "get_feed fetch (feed_url c) w =
      (Inr (fetch (feed_url c)), w\<lparr>trace := trace w @ [Fetched (feed_url c)]\<rparr>)"
    by (rule get_feed_ok)
  from Cons have "\<forall>c\<in>set pre. ok_feed fetch c" by simp
  from Cons.IH[OF this, of "w\<lparr>trace := trace w @ [Fetched (feed_url c)]\<rparr>"]
  show ?case by (auto simp: g)
qed

lemma first_bad:
  assumes "\<not> (\<forall>c\<in>set courts. ok_feed fetch c)"
  obtains pre bad post where "courts = pre @ bad # post" "\<forall>c\<in>set pre. ok_feed fetch c"
    "\<not> ok_feed fetch bad"
proof -
  from assms have "\<exists>c\<in>set courts. \<not> ok_feed fetch c" by blast
  from split_list_first_prop[OF this] obtain pre bad post where
    "courts = pre @ bad # post" "\<not> ok_feed fetch bad" "\<forall>c\<in>set pre. \<not> \<not> ok_feed fetch c"
    by blast
  with that show thesis by blast
qed

subsection \<open>The outer loop\<close>

lemma check_courts_ok:
  "\<forall>(court, feed)\<in>set feeds. court \<in> fst ` set cases \<Longrightarrow>
     fst (check_courts cases W feeds w) = Inr () \<and>
     trace (snd (check_courts cases W feeds w)) = trace w @ court_events cases W feeds \<and>
     killswitch (snd (check_courts cases W feeds w)) = killswitch w"
proof (induction feeds arbitrary: w)
  case Nil
  then show ?case by (simp add: court_events_def)
next
  case (Cons cf feeds)
  obtain court feed where cf: "cf = (court, feed)" by (cases cf)
  with Cons.prems have "court \<in> fst ` set cases" by simp
  then obtain ids where ids: "map_of cases court = Some ids"
    by (metis domD dom_map_of_conv_image_fst)
  from Cons.prems have r: "\<forall>(court, feed)\<in>set feeds. court \<in> fst ` set cases" by simp
  show ?case using Cons.IH[OF r] ids cf
    by (simp add: court_events_def check_entries_trace check_entries_killswitch)
qed



lemma court_events_sound:
  "e \<in> set (notified (court_events cases W feeds)) \<Longrightarrow>
     \<exists>court feed. (court, feed) \<in> set feeds \<and> e \<in> set (entries feed) \<and>
        case_id e \<in> set (the (map_of cases court)) \<and> W < mktime (published_parsed e)"
proof (induction feeds)
  case Nil
  then show ?case by (simp add: court_events_def)
next
  case (Cons cf feeds)
  obtain court feed where cf: "cf = (court, feed)" by (cases cf)
  from Cons.prems cf
  have "e \<in> set (matching (the (map_of cases court)) (considered W (entries feed))) \<or>
        e \<in> set (notified (court_events cases W feeds))"
    by (auto simp: court_events_def notified_append notified_match_events)
  then show ?case
  proof
    assume a: "e \<in> set (matching (the (map_of cases court)) (considered W (entries feed)))"
    then have "e \<in> set (takeWhile (\<lambda>e. W < mktime (published_parsed e)) (entries feed))"
      by (simp add: matching_def considered_def)
    then have "e \<in> set (entries feed) \<and> W < mktime (published_parsed e)"
      by (rule set_takeWhileD)
    moreover from a have "case_id e \<in> set (the (map_of cases court))"
      by (simp add: matching_def)
    ultimately show ?thesis using cf by auto
  next
    assume "e \<in> set (notified (court_events cases W feeds))"
    from Cons.IH[OF this] show ?thesis by auto
  qed
qed


subsection \<open>The three ways a run ends\<close>

text \<open>
  A run ends at the first feed whose fetch fails; or, all feeds loaded, at the
  \<open>ValueError\<close> of \<open>get_last_time\<close>; or it goes through the loops and succeeds.
\<close>

lemma scrape_fetch_fail:
  assumes "map fst cases = pre @ bad # post" "\<forall>c\<in>set pre. ok_feed fetch c" "\<not> ok_feed fetch bad"
  shows "\<exists>err. scrape cases fetch w =
           (Inl err, w\<lparr>trace := trace w @ fetch_events (pre @ [bad])\<rparr>) \<and>
           (\<forall>code. status (fetch (feed_url bad)) = Some code \<longrightarrow>
              err = Exception (''Getting PACER RSS feed '' @ href (fetch (feed_url bad)) @
                               '' failed with code '' @ str_int code @ ''.''))"
proof -
  from load_feeds_fail[OF assms(2,3), of post w] obtain err where
    l: "load_feeds fetch (pre @ bad # post) w =
           (Inl err, w\<lparr>trace := trace w @ map (\<lambda>c. Fetched (feed_url c)) (pre @ [bad])\<rparr>)"
    and e: "\<forall>code. status (fetch (feed_url bad)) = Some code \<longrightarrow>
              err = Exception (''Getting PACER RSS feed '' @ href (fetch (feed_url bad)) @
                               '' failed with code '' @ str_int code @ ''.'')" by blast
  from l have "scrape cases fetch w = (Inl err, w\<lparr>trace := trace w @ fetch_events (pre @ [bad])\<rparr>)"
    by (simp add: scrape_def assms(1) fetch_events_def)
  with e show ?thesis by blast
qed

lemma scrape_bad_time:
  assumes "\<forall>c\<in>set (map fst cases). ok_feed fetch c" "watermark w = Inl err"
  shows "scrape cases fetch w =
           (Inl err, w\<lparr>trace := trace w @ fetch_events (map fst cases) @ [Read_last_time]\<rparr>)"
  using assms(2)
  by (simp add: scrape_def load_feeds_ok[OF assms(1)] get_last_time_eq watermark_trace
      fetch_events_def)

lemma scrape_ok:
  assumes "\<forall>c\<in>set (map fst cases). ok_feed fetch c" "watermark w = Inr W"
  shows "fst (scrape cases fetch w) = Inr ()"
    and "trace (snd (scrape cases fetch w)) =
           trace w @ fetch_events (map fst cases) @ [Read_last_time] @
           court_events cases W (map (\<lambda>c. (c, fetch (feed_url c))) (map fst cases))"
    and "killswitch (snd (scrape cases fetch w)) = killswitch w"
proof -
  let ?feeds = "map (\<lambda>c. (c, fetch (feed_url c))) (map fst cases)"
  let ?w2 = "w\<lparr>trace := trace w @ fetch_events (map fst cases) @ [Read_last_time]\<rparr>"
  have s: "scrape cases fetch w = check_courts cases W ?feeds ?w2"
    using assms(2)
    by (simp add: scrape_def load_feeds_ok[OF assms(1)] get_last_time_eq watermark_trace
        fetch_events_def)
  have "\<forall>(court, feed)\<in>set ?feeds. court \<in> fst ` set cases" by auto
  from check_courts_ok[OF this, of W ?w2] s
  show "fst (scrape cases fetch w) = Inr ()"
    and "trace (snd (scrape cases fetch w)) =
           trace w @ fetch_events (map fst cases) @ [Read_last_time] @ court_events cases W ?feeds"
    and "killswitch (snd (scrape cases fetch w)) = killswitch w"
    by simp_all
qed

lemma scrape_notified_sound:
  assumes "e \<in> set (notified (during w (snd (scrape cases fetch w))))"
  shows "\<exists>W court ids. watermark w = Inr W \<and> W < mktime (published_parsed e) \<and>
           map_of cases court = Some ids \<and> case_id e \<in> set ids \<and>
           e \<in> set (entries (fetch (feed_url court)))"
proof (cases "\<forall>c\<in>set (map fst cases). ok_feed fetch c")
  case False
  then obtain pre bad post where "map fst cases = pre @ bad # post" "\<forall>c\<in>set pre. ok_feed fetch c"
    "\<not> ok_feed fetch bad" by (rule first_bad)
  from scrape_fetch_fail[OF this, of w] obtain err where
    "scrape cases fetch w = (Inl err, w\<lparr>trace := trace w @ fetch_events (pre @ [bad])\<rparr>)" by blast
  then have "during w (snd (scrape cases fetch w)) = fetch_events (pre @ [bad])"
    by (simp add: during_def)
  with assms show ?thesis by (simp add: notified_fetch_events)
next
  case True
  show ?thesis
  proof (cases "watermark w")
    case (Inl err)
    from scrape_bad_time[OF True Inl]
    have "during w (snd (scrape cases fetch w)) = fetch_events (map fst cases) @ [Read_last_time]"
      by (simp add: during_def)
    with assms show ?thesis by (simp add: notified_append notified_fetch_events)
  next
    case (Inr W)
    let ?feeds = "map (\<lambda>c. (c, fetch (feed_url c))) (map fst cases)"
    from scrape_ok(2)[OF True Inr]
    have "during w (snd (scrape cases fetch w)) =
            fetch_events (map fst cases) @ [Read_last_time] @ court_events cases W ?feeds"
      by (rule during_append)
    with assms have "e \<in> set (notified (court_events cases W ?feeds))"
      by (simp add: notified_append notified_fetch_events)
    from court_events_sound[OF this] obtain court feed where
      cf: "(court, feed) \<in> set ?feeds" "e \<in> set (entries feed)"
      "case_id e \<in> set (the (map_of cases court))" "W < mktime (published_parsed e)" by blast
    from cf(1) have c: "court \<in> fst ` set cases" and f: "feed = fetch (feed_url court)" by auto
    from c obtain ids where "map_of cases court = Some ids"
      by (metis domD dom_map_of_conv_image_fst)
    with cf f Inr show ?thesis by auto
  qed
qed

subsection \<open>Writing and reading the watermark\<close>

text \<open>
  What \<open>set_last_time\<close> writes, \<open>get_last_time\<close> reads back: \<open>int(str(t) + "\n")\<close>
  is \<open>t\<close>.
\<close>

lemma digit_chr_is_digit: "d < 10 \<Longrightarrow> is_digit (digit_chr d)"
proof -
  assume "d < 10"
  moreover have "list_all (\<lambda>d. is_digit (digit_chr d)) [0..<10]" by code_simp
  ultimately show ?thesis by (simp add: list_all_iff)
qed

lemma digit_val_chr: "d < 10 \<Longrightarrow> digit_val (digit_chr d) = d"
proof -
  assume "d < 10"
  moreover have "list_all (\<lambda>d. digit_val (digit_chr d) = d) [0..<10]" by code_simp
  ultimately show ?thesis by (simp add: list_all_iff)
qed

lemma is_digit_plain:
  "is_digit c \<Longrightarrow> \<not> is_space c \<and> c \<noteq> CHR ''-'' \<and> c \<noteq> CHR ''+'' \<and> c \<noteq> CHR ''_'' \<and> c \<noteq> CHR 0x0A"
  by (auto simp: is_digit_def is_space_def)

lemma str_nat_digits: "list_all is_digit (str_nat n) \<and> str_nat n \<noteq> []"
proof (induction n rule: str_nat.induct)
  case (1 n)
  show ?case
  proof (cases "n < 10")
    case True
    then show ?thesis by (simp add: digit_chr_is_digit str_nat.simps[of n])
  next
    case False
    moreover have "n mod 10 < 10" by simp
    ultimately show ?thesis using 1 by (simp add: digit_chr_is_digit str_nat.simps[of n])
  qed
qed

lemma digits_val_snoc: "digits_val (ds @ [c]) = 10 * digits_val ds + digit_val c"
  by (simp add: digits_val_def)

lemma digits_val_str_nat: "digits_val (str_nat n) = n"
proof (induction n rule: str_nat.induct)
  case (1 n)
  show ?case
  proof (cases "n < 10")
    case True
    then show ?thesis by (simp add: digits_val_def digit_val_chr str_nat.simps[of n])
  next
    case False
    have "str_nat n = str_nat (n div 10) @ [digit_chr (n mod 10)]"
      using False by (subst str_nat.simps) simp
    then have "digits_val (str_nat n) = 10 * digits_val (str_nat (n div 10)) + digit_val (digit_chr (n mod 10))"
      by (simp only: digits_val_snoc)
    also have "\<dots> = 10 * (n div 10) + n mod 10" using 1[OF False] by (simp add: digit_val_chr)
    finally show ?thesis by simp
  qed
qed

lemma split_chr_absent: "sep \<notin> set s \<Longrightarrow> split_chr sep s = [s]"
  by (induction s) auto

lemma nat_of_str_str_nat: "nat_of_str (str_nat n) = Some n"
proof -
  from str_nat_digits[of n] have d: "list_all is_digit (str_nat n)" and ne: "str_nat n \<noteq> []" by auto
  from d have "CHR ''_'' \<notin> set (str_nat n)" using is_digit_plain by (auto simp: list_all_iff)
  then have "split_chr CHR ''_'' (str_nat n) = [str_nat n]" by (rule split_chr_absent)
  with d ne show ?thesis by (simp add: nat_of_str_def digits_val_str_nat)
qed

lemma readline_line: "CHR 0x0A \<notin> set s \<Longrightarrow> readline (s @ [CHR 0x0A]) = s @ [CHR 0x0A]"
  by (induction s) auto

lemma strip_line:
  assumes "s \<noteq> []" "\<not> is_space (hd s)" "\<not> is_space (last s)"
  shows "strip (s @ [CHR 0x0A]) = s"
proof -
  from assms(1,2) have "dropWhile is_space (s @ [CHR 0x0A]) = s @ [CHR 0x0A]"
    by (cases s) auto
  moreover have "is_space CHR 0x0A" by (simp add: is_space_def)
  moreover from assms(1,3) have "dropWhile is_space (rev s) = rev s"
    by (cases "rev s") (auto simp: last_rev[symmetric] simp del: last_rev)
  ultimately show ?thesis by (simp add: strip_def)
qed

lemma int_of_str_line: "int_of_str (str_int t @ [CHR 0x0A]) = Inr t"
proof (cases "t < 0")
  case True
  let ?ds = "str_nat (nat (- t))"
  from str_nat_digits[of "nat (- t)"] have d: "list_all is_digit ?ds" and ne: "?ds \<noteq> []" by auto
  from d ne have "is_digit (last ?ds)" by (simp add: list_all_iff)
  then have "\<not> is_space (last (''-'' @ ?ds))" using ne is_digit_plain by simp
  moreover have "\<not> is_space (hd (''-'' @ ?ds))" by (simp add: is_space_def)
  ultimately have "strip ((''-'' @ ?ds) @ [CHR 0x0A]) = ''-'' @ ?ds" by (intro strip_line) simp_all
  then have "strip (str_int t @ [CHR 0x0A]) = CHR ''-'' # ?ds" using True by (simp add: str_int_def)
  then show ?thesis using True by (simp add: int_of_str_def nat_of_str_str_nat)
next
  case False
  let ?ds = "str_nat (nat t)"
  from str_nat_digits[of "nat t"] have d: "list_all is_digit ?ds" and ne: "?ds \<noteq> []" by auto
  from d ne have l: "is_digit (last ?ds)" and h: "is_digit (hd ?ds)" by (simp_all add: list_all_iff)
  from l h ne have "strip (?ds @ [CHR 0x0A]) = ?ds" using is_digit_plain by (intro strip_line) auto
  then have s: "strip (str_int t @ [CHR 0x0A]) = ?ds" using False by (simp add: str_int_def)
  from h have "hd ?ds \<noteq> CHR ''-''" "hd ?ds \<noteq> CHR ''+''" using is_digit_plain by auto
  then show ?thesis using False ne s by (simp add: int_of_str_def nat_of_str_str_nat)
qed

lemma str_int_no_newline: "CHR 0x0A \<notin> set (str_int t)"
proof -
  have "CHR 0x0A \<notin> set (str_nat n)" for n
    using str_nat_digits[of n] is_digit_plain by (auto simp: list_all_iff)
  then show ?thesis by (simp add: str_int_def)
qed

lemma watermark_written: "lasttime w = Content (str_int t @ [CHR 0x0A]) \<Longrightarrow> watermark w = Inr t"
  by (simp add: watermark_def get_last_time_def readline_line[OF str_int_no_newline] int_of_str_line)

lemma watermark_set_last_time: "watermark (set_last_time t w) = Inr t"
  by (rule watermark_written) (simp add: set_last_time_def)

text \<open>
  A run leaves the file of the watermark as it was, or holding a time above the
  watermark it read at its start; so the watermark does not go down from run to run.
\<close>

lemma check_entries_lasttime_above:
  "lasttime (check_entries W ids es w) = lasttime w \<or>
   (\<exists>t. W < t \<and> lasttime (check_entries W ids es w) = Content (str_int t @ [CHR 0x0A]))"
proof (induction es arbitrary: w)
  case Nil
  then show ?case by simp
next
  case (Cons e es)
  show ?case
  proof (cases "mktime (published_parsed e) \<le> W")
    case True
    then show ?thesis by simp
  next
    case False
    show ?thesis
    proof (cases "case_id e \<in> set ids")
      case True
      let ?w = "set_last_time (mktime (published_parsed e)) (notifier e w)"
      have "lasttime ?w = Content (str_int (mktime (published_parsed e)) @ [CHR 0x0A])"
        by (simp add: set_last_time_def)
      moreover from False have "W < mktime (published_parsed e)" by simp
      moreover have "check_entries W ids (e # es) w = check_entries W ids es ?w"
        using False True by simp
      ultimately show ?thesis using Cons.IH[of ?w] by metis
    next
      case no: False
      with Cons.IH[of w] False show ?thesis by simp
    qed
  qed
qed

lemma check_courts_lasttime_above:
  "lasttime (snd (check_courts cases W feeds w)) = lasttime w \<or>
   (\<exists>t. W < t \<and> lasttime (snd (check_courts cases W feeds w)) = Content (str_int t @ [CHR 0x0A]))"
proof (induction feeds arbitrary: w)
  case Nil
  then show ?case by simp
next
  case (Cons cf feeds)
  obtain court feed where cf: "cf = (court, feed)" by (cases cf)
  show ?case
  proof (cases "map_of cases court")
    case None
    with cf show ?thesis by simp
  next
    case (Some ids)
    let ?w = "check_entries W ids (entries feed) w"
    from Some cf have "check_courts cases W (cf # feeds) w = check_courts cases W feeds ?w" by simp
    with Cons.IH[of ?w] check_entries_lasttime_above[of W ids "entries feed" w]
    show ?thesis by auto
  qed
qed

lemma watermark_lasttime: "lasttime w = lasttime w' \<Longrightarrow> watermark w = watermark w'"
  by (simp add: watermark_def get_last_time_def)

lemma scrape_watermark_not_below_start:
  assumes "watermark w = Inr W"
  shows "\<exists>W'. watermark (snd (scrape cases fetch w)) = Inr W' \<and> W \<le> W'"
proof (cases "\<forall>c\<in>set (map fst cases). ok_feed fetch c")
  case False
  then obtain pre bad post where "map fst cases = pre @ bad # post" "\<forall>c\<in>set pre. ok_feed fetch c"
    "\<not> ok_feed fetch bad" by (rule first_bad)
  from scrape_fetch_fail[OF this, of w] obtain err where
    "scrape cases fetch w = (Inl err, w\<lparr>trace := trace w @ fetch_events (pre @ [bad])\<rparr>)" by blast
  then have "watermark (snd (scrape cases fetch w)) = watermark w" by (simp add: watermark_trace)
  with assms show ?thesis by simp
next
  case True
  let ?feeds = "map (\<lambda>c. (c, fetch (feed_url c))) (map fst cases)"
  let ?w2 = "w\<lparr>trace := trace w @ fetch_events (map fst cases) @ [Read_last_time]\<rparr>"
  have s: "scrape cases fetch w = check_courts cases W ?feeds ?w2"
    using assms
    by (simp add: scrape_def load_feeds_ok[OF True] get_last_time_eq watermark_trace
        fetch_events_def)
  from check_courts_lasttime_above[of cases W ?feeds ?w2]
  show ?thesis
  proof
    assume "lasttime (snd (check_courts cases W ?feeds ?w2)) = lasttime ?w2"
    with s have "lasttime (snd (scrape cases fetch w)) = lasttime w" by simp
    then have "watermark (snd (scrape cases fetch w)) = watermark w" by (rule watermark_lasttime)
    with assms show ?thesis by simp
  next
    assume "\<exists>t. W < t \<and> lasttime (snd (check_courts cases W ?feeds ?w2)) = Content (str_int t @ [CHR 0x0A])"
    then obtain t where t: "W < t"
      "lasttime (snd (check_courts cases W ?feeds ?w2)) = Content (str_int t @ [CHR 0x0A])" by blast
    from t(2) s have "watermark (snd (scrape cases fetch w)) = Inr t"
      by (intro watermark_written) simp
    with t(1) show ?thesis by simp
  qed
qed

lemma scrape_runs_append:
  "scrape_runs cases (fs @ gs) w = scrape_runs cases gs (scrape_runs cases fs w)"
  by (induction fs arbitrary: w) simp_all

lemma scrape_runs_watermark:
  "watermark w = Inr W \<Longrightarrow> \<exists>W'. watermark (scrape_runs cases fs w) = Inr W' \<and> W \<le> W'"
proof (induction fs arbitrary: w W)
  case Nil
  then show ?case by simp
next
  case (Cons fetch fs)
  from scrape_watermark_not_below_start[OF Cons.prems, of cases fetch] obtain W1 where
    1: "watermark (snd (scrape cases fetch w)) = Inr W1" "W \<le> W1" by blast
  from Cons.IH[OF 1(1)] obtain W2 where
    "watermark (scrape_runs cases fs (snd (scrape cases fetch w))) = Inr W2" "W1 \<le> W2" by blast
  with 1(2) show ?case by auto
qed

lemma written_court_events:
  "written (court_events cases W feeds) = map (\<lambda>e. mktime (published_parsed e)) (notified (court_events cases W feeds))"
  by (induction feeds) (auto simp: court_events_def written_append notified_append
      written_match_events notified_match_events)

lemma scrape_written_above:
  assumes "watermark w = Inr W" "t \<in> set (written (during w (snd (scrape cases fetch w))))"
  shows "W < t"
proof (cases "\<forall>c\<in>set (map fst cases). ok_feed fetch c")
  case False
  then obtain pre bad post where "map fst cases = pre @ bad # post" "\<forall>c\<in>set pre. ok_feed fetch c"
    "\<not> ok_feed fetch bad" by (rule first_bad)
  from scrape_fetch_fail[OF this, of w] obtain err where
    "scrape cases fetch w = (Inl err, w\<lparr>trace := trace w @ fetch_events (pre @ [bad])\<rparr>)" by blast
  then have "during w (snd (scrape cases fetch w)) = fetch_events (pre @ [bad])"
    by (simp add: during_def)
  with assms(2) show ?thesis by (simp add: written_fetch_events)
next
  case True
  let ?feeds = "map (\<lambda>c. (c, fetch (feed_url c))) (map fst cases)"
  from scrape_ok(2)[OF True assms(1)]
  have "during w (snd (scrape cases fetch w)) =
          fetch_events (map fst cases) @ [Read_last_time] @ court_events cases W ?feeds"
    by (rule during_append)
  with assms(2) have "t \<in> set (written (court_events cases W ?feeds))"
    by (simp add: written_append written_fetch_events del: map_map)
  then obtain e where "e \<in> set (notified (court_events cases W ?feeds))"
    "t = mktime (published_parsed e)" unfolding written_court_events by auto
  with court_events_sound[of e cases W ?feeds] show ?thesis by blast
qed

text \<open>
  From run to run the watermark does not go down, and every value that a run writes is
  above the watermark it read at its start.
\<close>

lemma scrape_runs_monotone:
  assumes "watermark w = Inr W"
  shows "(\<exists>W1 W2. watermark (scrape_runs cases fs w) = Inr W1 \<and>
                  watermark (scrape_runs cases (fs @ gs) w) = Inr W2 \<and> W \<le> W1 \<and> W1 \<le> W2) \<and>
         (\<forall>t\<in>set (written (during w (snd (scrape cases fetch w)))). W < t)"
proof -
  from scrape_runs_watermark[OF assms, of cases fs] obtain W1 where
    1: "watermark (scrape_runs cases fs w) = Inr W1" "W \<le> W1" by blast
  from scrape_runs_watermark[OF 1(1), of cases gs] obtain W2 where
    "watermark (scrape_runs cases gs (scrape_runs cases fs w)) = Inr W2" "W1 \<le> W2" by blast
  with 1 have "\<exists>W1 W2. watermark (scrape_runs cases fs w) = Inr W1 \<and>
                  watermark (scrape_runs cases (fs @ gs) w) = Inr W2 \<and> W \<le> W1 \<and> W1 \<le> W2"
    by (simp add: scrape_runs_append)
  moreover have "\<forall>t\<in>set (written (during w (snd (scrape cases fetch w)))). W < t"
    using scrape_written_above[OF assms] by blast
  ultimately show ?thesis by blast
qed

subsection \<open>The sample runs\<close>

lemmas example_defs = newer_filing_def older_filing_def ilnd_cases_def one_filing_def
  two_filings_def not_found_def fresh_world_def

lemmas run_defs = scrape_def get_feed_def feed_url_def get_last_time_def mktime_def
  case_id_def notifier_def set_last_time_def str_int_def str_nat.simps digit_chr_def during_def watermark_def
  int_of_str_def strip_def is_space_def nat_of_str_def digits_val_def digit_val_def is_digit_def

lemma one_run:
  "scrape ilnd_cases one_filing fresh_world =
     (Inr (), \<lparr>killswitch = Missing, lasttime = Content (''1000'' @ [CHR 0x0A]),
       trace = [Fetched ''https://ecf.ilnd.uscourts.gov/cgi-bin/rss_outside.pl'', Read_last_time,
                Notified newer_filing, Wrote 1000]\<rparr>)"
  by (simp add: run_defs example_defs)

lemma two_run:
  "scrape ilnd_cases two_filings fresh_world =
     (Inr (), \<lparr>killswitch = Missing, lasttime = Content (''900'' @ [CHR 0x0A]),
       trace = [Fetched ''https://ecf.ilnd.uscourts.gov/cgi-bin/rss_outside.pl'', Read_last_time,
                Notified newer_filing, Wrote 1000, Notified older_filing, Wrote 900]\<rparr>)"
  by (simp add: run_defs example_defs)

lemma not_found_run:
  "scrape ilnd_cases not_found fresh_world =
     (Inl (Exception ''Getting PACER RSS feed https://ecf.ilnd.uscourts.gov/cgi-bin/rss_outside.pl failed with code 404.''),
      \<lparr>killswitch = Missing, lasttime = Missing,
       trace = [Fetched ''https://ecf.ilnd.uscourts.gov/cgi-bin/rss_outside.pl'']\<rparr>)"
  by (simp add: run_defs example_defs)

lemma district_entry_no_early_ecf: "n < 8 \<Longrightarrow> \<not> prefix ''ecf.'' (drop n (link district_entry))"
proof -
  assume "n < 8"
  moreover have "list_all (\<lambda>n. \<not> prefix ''ecf.'' (drop n (link district_entry))) [0..<8]"
    by code_simp
  ultimately show ?thesis by (simp add: list_all_iff)
qed

section \<open>The claims\<close>

text \<open>
  Claim C1 (idempotence under no new entries). Run \<open>scrape\<close> twice on the same watchlist
  and the same feeds. If no entry of a watched court's feed has a publication time above
  the watermark that is persisted when the first run ends, the second run does not call
  the notifier.
\<close>

theorem scrape_idempotent:
  assumes "scrape cases fetch w = (r1, w1)"
    and "scrape cases fetch w1 = (r2, w2)"
    and "\<forall>W. watermark w1 = Inr W \<longrightarrow>
           (\<forall>court\<in>fst ` set cases. \<forall>e\<in>set (entries (fetch (feed_url court))).
              mktime (published_parsed e) \<le> W)"
  shows "notified (during w1 w2) = []"
proof (rule ccontr)
  assume "notified (during w1 w2) \<noteq> []"
  then obtain e where "e \<in> set (notified (during w1 w2))"
    by (cases "notified (during w1 w2)") auto
  with assms(2) have "e \<in> set (notified (during w1 (snd (scrape cases fetch w1))))" by simp
  from scrape_notified_sound[OF this] obtain W court ids where
    h: "watermark w1 = Inr W" "W < mktime (published_parsed e)" "map_of cases court = Some ids"
    "e \<in> set (entries (fetch (feed_url court)))" by blast
  from h(3) have "court \<in> fst ` set cases" by (metis domI dom_map_of_conv_image_fst)
  with assms(3) h(1,4) have "mktime (published_parsed e) \<le> W" by blast
  with h(2) show False by simp
qed

theorem scrape_idempotent_witness:
  "watermark (snd (scrape ilnd_cases one_filing fresh_world)) = Inr 1000 \<and>
   notified (during fresh_world (snd (scrape ilnd_cases one_filing fresh_world))) = [newer_filing] \<and>
   notified (during (snd (scrape ilnd_cases one_filing fresh_world))
     (snd (scrape ilnd_cases one_filing (snd (scrape ilnd_cases one_filing fresh_world))))) = []"
proof -
  let ?w1 = "snd (scrape ilnd_cases one_filing fresh_world)"
  let ?w2 = "snd (scrape ilnd_cases one_filing ?w1)"
  have 1: "scrape ilnd_cases one_filing fresh_world =
             (fst (scrape ilnd_cases one_filing fresh_world), ?w1)" by simp
  have 2: "scrape ilnd_cases one_filing ?w1 = (fst (scrape ilnd_cases one_filing ?w1), ?w2)"
    by simp
  have wm: "watermark ?w1 = Inr 1000" unfolding one_run by (simp add: run_defs)
  have n1: "notified (during fresh_world ?w1) = [newer_filing]"
    unfolding one_run by (simp add: during_def fresh_world_def)
  have 3: "\<forall>W. watermark ?w1 = Inr W \<longrightarrow>
             (\<forall>court\<in>fst ` set ilnd_cases. \<forall>e\<in>set (entries (one_filing (feed_url court))).
                mktime (published_parsed e) \<le> W)"
    using wm by (simp add: example_defs mktime_def)
  from scrape_idempotent[OF 1 2 3] wm n1 show ?thesis by simp
qed

text \<open>
  Claim C2 as stated fails on the feed of two filings, starting from watermark 0. The
  notifier is called on an entry whose publication time is at or below the watermark
  persisted at that moment: the first match persists 1000, and the notifier is then
  called on the filing of time 900. And an entry is notified in a later run although the
  watermark had reached its publication time: the run writes 1000 and then 900, and the
  next run on the same feed notifies the filing of time 1000 again.
\<close>

theorem scrape_notifies_above_start_counterexample:
  "watermark fresh_world = Inr 0 \<and>
   notified_stale 0 (during fresh_world (snd (scrape ilnd_cases two_filings fresh_world))) =
     [older_filing] \<and>
   written (during fresh_world (snd (scrape ilnd_cases two_filings fresh_world))) = [1000, 900] \<and>
   mktime (published_parsed newer_filing) = 1000 \<and>
   notified (during (snd (scrape ilnd_cases two_filings fresh_world))
      (snd (scrape ilnd_cases two_filings (snd (scrape ilnd_cases two_filings fresh_world))))) =
     [newer_filing]"
  unfolding two_run
  by (simp add: run_defs example_defs)

text \<open>
  Claim C2, amended. Every entry that a run of \<open>scrape\<close> hands to the notifier has a
  publication time above the watermark that the run read at its start.
\<close>

theorem scrape_notifies_above_start:
  assumes "scrape cases fetch w = (r, w')"
  shows "\<forall>e\<in>set (notified (during w w')).
           \<exists>W. watermark w = Inr W \<and> W < mktime (published_parsed e)"
proof
  fix e assume "e \<in> set (notified (during w w'))"
  with assms have "e \<in> set (notified (during w (snd (scrape cases fetch w))))" by simp
  from scrape_notified_sound[OF this] show "\<exists>W. watermark w = Inr W \<and> W < mktime (published_parsed e)"
    by blast
qed

theorem scrape_notifies_above_start_witness:
  "notified (during fresh_world (snd (scrape ilnd_cases two_filings fresh_world))) =
     [newer_filing, older_filing] \<and>
   watermark fresh_world = Inr 0 \<and>
   0 < mktime (published_parsed newer_filing) \<and> 0 < mktime (published_parsed older_filing)"
proof -
  let ?w1 = "snd (scrape ilnd_cases two_filings fresh_world)"
  have 1: "scrape ilnd_cases two_filings fresh_world =
             (fst (scrape ilnd_cases two_filings fresh_world), ?w1)" by simp
  have n: "notified (during fresh_world ?w1) = [newer_filing, older_filing]"
    unfolding two_run by (simp add: during_def fresh_world_def)
  have wm: "watermark fresh_world = Inr 0" by (simp add: run_defs fresh_world_def)
  from scrape_notifies_above_start[OF 1] n wm
  have "0 < mktime (published_parsed newer_filing) \<and> 0 < mktime (published_parsed older_filing)"
    by simp
  with n wm show ?thesis by simp
qed

text \<open>
  Claim C3 (monotonic watermark: within a run and from run to run, every write stores a
  value at or above the value persisted before it) on the feed of two filings, starting
  from watermark 0: the run writes 1000 and then 900, and ends with the watermark 900,
  below the 1000 it had persisted.
\<close>

theorem scrape_watermark_decreases:
  "watermark fresh_world = Inr 0 \<and>
   written (during fresh_world (snd (scrape ilnd_cases two_filings fresh_world))) = [1000, 900] \<and>
   watermark (snd (scrape ilnd_cases two_filings fresh_world)) = Inr 900"
  unfolding two_run
  by (simp add: run_defs fresh_world_def)

text \<open>
  Claim C4 (watermark dominance: after a run without error the watermark is at or above
  the publication time of every entry notified) on the feed of two filings: the run
  succeeds and notifies the filing of time 1000, and the watermark it leaves is 900; the
  next run on the same feed notifies that filing again.
\<close>

theorem scrape_watermark_below_notified:
  "fst (scrape ilnd_cases two_filings fresh_world) = Inr () \<and>
   notified (during fresh_world (snd (scrape ilnd_cases two_filings fresh_world))) =
     [newer_filing, older_filing] \<and>
   watermark (snd (scrape ilnd_cases two_filings fresh_world)) = Inr 900 \<and>
   mktime (published_parsed newer_filing) = 1000 \<and>
   notified (during (snd (scrape ilnd_cases two_filings fresh_world))
      (snd (scrape ilnd_cases two_filings (snd (scrape ilnd_cases two_filings fresh_world))))) =
     [newer_filing]"
  unfolding two_run
  by (simp add: run_defs example_defs)



text \<open>
  Claim C6 (extraction falls back to the sentinel). \<open>parse_entry\<close> is defined on every
  entry that carries the five fields, and no call in it can raise: \<open>group(1)\<close> is taken
  of a successful search only. Each of the fields \<open>num\<close>, \<open>link\<close>, \<open>court\<close> and
  \<open>description\<close> is \<open>?\<close> when its own pattern does not occur in the text it is searched
  in; the link is \<open>?\<close> when the description has no \<open>href=\<close>; the time is the entry's
  \<open>published_parsed\<close>.
\<close>

theorem parse_entry_sentinels:
  "(\<not> occurs num_re (description e) \<longrightarrow> info_num (parse_entry e) = ''?'') \<and>
   (\<not> occurs link_re (description e) \<longrightarrow> info_link (parse_entry e) = ''?'') \<and>
   (\<not> occurs court_re (link e) \<longrightarrow> info_court (parse_entry e) = ''?'') \<and>
   (\<not> occurs description_re (summary e) \<longrightarrow> info_description (parse_entry e) = ''?'') \<and>
   (\<not> sublist ''href='' (description e) \<longrightarrow> info_link (parse_entry e) = ''?'') \<and>
   info_time (parse_entry e) = published_parsed e"
proof -
  have s: "group1_or_sentinel (search re s) = ''?''" if "\<not> occurs re s" for re s
    using that search_None[of re s] by (simp add: group1_or_sentinel_def)
  have "\<not> occurs link_re (description e)" if n: "\<not> sublist ''href='' (description e)"
  proof
    assume "occurs link_re (description e)"
    then obtain a g b where "description e = a @ before link_re @ g @ after link_re @ b"
      by (auto simp: occurs_def occurs_at_def)
    then have "description e = a @ ''href='' @ ([CHR 0x22] @ g @ after link_re @ b)"
      by (simp add: link_re_def)
    then have "sublist ''href='' (description e)" unfolding sublist_def by blast
    with n show False by simp
  qed
  then show ?thesis by (simp add: parse_entry_def s)
qed

theorem parse_entry_sentinels_witness:
  "\<not> occurs num_re (description district_entry) \<and>
   \<not> occurs link_re (description district_entry) \<and>
   \<not> occurs court_re (link appeals_entry) \<and>
   \<not> occurs description_re (summary district_entry) \<and>
   \<not> sublist ''href='' (description district_entry) \<and>
   info_num (parse_entry district_entry) = ''?'' \<and>
   info_link (parse_entry district_entry) = ''?'' \<and>
   info_court (parse_entry appeals_entry) = ''?'' \<and>
   info_description (parse_entry district_entry) = ''?'' \<and>
   info_time (parse_entry district_entry) = 1000"
proof -
  have 1: "\<not> occurs num_re (description district_entry)"
    unfolding search_None[symmetric] by (simp add: regex_defs district_entry_def)
  have 2: "\<not> occurs link_re (description district_entry)"
    unfolding search_None[symmetric] by (simp add: regex_defs district_entry_def)
  have 3: "\<not> occurs court_re (link appeals_entry)"
    unfolding search_None[symmetric] by (simp add: regex_defs appeals_entry_def)
  have 4: "\<not> occurs description_re (summary district_entry)"
    unfolding search_None[symmetric] by (simp add: regex_defs district_entry_def)
  have 5: "\<not> sublist ''href='' (description district_entry)"
    by (simp add: district_entry_def sublist_code)
  have 6: "published_parsed district_entry = 1000" by (simp add: district_entry_def)
  from 1 2 3 4 5 6 parse_entry_sentinels[of district_entry] parse_entry_sentinels[of appeals_entry]
  show ?thesis by simp
qed

text \<open>
  Claim C7 as stated (the court is the text of the link between \<open>ecf.\<close> and the next
  \<open>.\<close>) fails for a court whose code has a digit: the link of an appellate filing,
  \<open>https://ecf.ca9.uscourts.gov/...\<close>, has \<open>ca9\<close> there, and \<open>parse_entry\<close> answers \<open>?\<close>.
\<close>

theorem parse_entry_court_counterexample:
  "info_court (parse_entry appeals_entry) \<noteq> court_by_spec (link appeals_entry)"
  by (simp add: parse_entry_def regex_defs appeals_entry_def court_by_spec_def)

text \<open>
  Claim C7, amended. When \<open>g\<close> is a non-empty run of lower-case letters that stands in
  the link between \<open>ecf.\<close> and a \<open>.\<close>, at the leftmost place where such a run stands
  so, the court is \<open>g\<close>; when no non-empty run of lower-case letters stands between an
  \<open>ecf.\<close> and a \<open>.\<close>, the court is \<open>?\<close>.
\<close>

theorem parse_entry_court:
  "(link e = a @ ''ecf.'' @ g @ ''.'' @ b \<and> g \<noteq> [] \<and> list_all is_lower g \<and>
    (\<forall>a' g' b'. link e = a' @ ''ecf.'' @ g' @ ''.'' @ b' \<and> g' \<noteq> [] \<and> list_all is_lower g'
        \<longrightarrow> length a \<le> length a')
    \<longrightarrow> info_court (parse_entry e) = g) \<and>
   ((\<forall>a g b. link e = a @ ''ecf.'' @ g @ ''.'' @ b \<longrightarrow> g = [] \<or> \<not> list_all is_lower g)
    \<longrightarrow> info_court (parse_entry e) = ''?'')"
proof (intro conjI impI)
  assume h: "link e = a @ ''ecf.'' @ g @ ''.'' @ b \<and> g \<noteq> [] \<and> list_all is_lower g \<and>
    (\<forall>a' g' b'. link e = a' @ ''ecf.'' @ g' @ ''.'' @ b' \<and> g' \<noteq> [] \<and> list_all is_lower g'
        \<longrightarrow> length a \<le> length a')"
  then have o: "occurs_at court_re (link e) a g" unfolding court_occurs_at by blast
  have "length a < length a' \<or> (length a' = length a \<and> length g' \<le> length g)"
    if "occurs_at court_re (link e) a' g'" for a' g'
  proof -
    from that obtain b' where o': "link e = a' @ ''ecf.'' @ g' @ ''.'' @ b'" "g' \<noteq> []"
      "list_all is_lower g'" unfolding court_occurs_at by blast
    with h have le: "length a \<le> length a'" by blast
    show ?thesis
    proof (cases "length a' = length a")
      case True
      from h o'(1) have "a @ ''ecf.'' @ g @ ''.'' @ b = a' @ ''ecf.'' @ g' @ ''.'' @ b'" by simp
      with True have "g @ CHR ''.'' # b = g' @ CHR ''.'' # b'" by simp
      moreover have "\<not> is_lower CHR ''.''" by (simp add: is_lower_def)
      ultimately have "g = g'" using h o'(3) run_unique[of is_lower g g' "CHR ''.''" b b'] by blast
      with True show ?thesis by simp
    next
      case False
      with le show ?thesis by simp
    qed
  qed
  with o have "first_longest court_re (link e) g" unfolding first_longest_def by blast
  then have "search court_re (link e) = Some g" by (simp add: search_iff)
  then show "info_court (parse_entry e) = g" by (simp add: parse_entry_def group1_or_sentinel_def)
next
  assume "\<forall>a g b. link e = a @ ''ecf.'' @ g @ ''.'' @ b \<longrightarrow> g = [] \<or> \<not> list_all is_lower g"
  then have "\<not> occurs court_re (link e)" unfolding occurs_def court_occurs_at by blast
  then have "search court_re (link e) = None" by (simp add: search_None)
  then show "info_court (parse_entry e) = ''?''" by (simp add: parse_entry_def group1_or_sentinel_def)
qed

theorem parse_entry_court_witness:
  "link district_entry = ''https://'' @ ''ecf.'' @ ''ilnd'' @ ''.'' @ ''uscourts.gov/doc1/067113'' \<and>
   list_all is_lower ''ilnd'' \<and>
   info_court (parse_entry district_entry) = ''ilnd'' \<and>
   info_court (parse_entry appeals_entry) = ''?''"
proof -
  have l: "link district_entry = ''https://'' @ ''ecf.'' @ ''ilnd'' @ ''.'' @ ''uscourts.gov/doc1/067113''"
    by (simp add: district_entry_def)
  have lw: "list_all is_lower ''ilnd''" by (simp add: is_lower_def)
  have lm': "length ''https://'' \<le> length a'"
    if "link district_entry = a' @ ''ecf.'' @ g' @ ''.'' @ b'" for a' g' b'
  proof (rule ccontr)
    assume "\<not> length ''https://'' \<le> length a'"
    then have "length a' < 8" by simp
    then have "\<not> prefix ''ecf.'' (drop (length a') (link district_entry))" by (rule district_entry_no_early_ecf)
    moreover have "prefix ''ecf.'' (drop (length a') (link district_entry))"
      by (subst that) simp
    ultimately show False by simp
  qed
  have "\<not> occurs court_re (link appeals_entry)"
    unfolding search_None[symmetric] by (simp add: regex_defs appeals_entry_def)
  then have no: "\<forall>a g b. link appeals_entry = a @ ''ecf.'' @ g @ ''.'' @ b \<longrightarrow>
      g = [] \<or> \<not> list_all is_lower g"
    unfolding occurs_def court_occurs_at by blast
  have p1: "info_court (parse_entry district_entry) = ''ilnd''"
    using l lw lm'
      parse_entry_court[of district_entry "''https://''" "''ilnd''" "''uscourts.gov/doc1/067113''"]
    by blast
  have p2: "info_court (parse_entry appeals_entry) = ''?''"
    using no parse_entry_court[of appeals_entry] by blast
  from l lw p1 p2 show ?thesis by blast
qed

text \<open>
  Claim C8 (a fetch failure is fatal). When the feed of some watched court reports a
  status other than 200 (and every feed reports a status), \<open>scrape\<close> raises the
  exception of the first such court in the order of the watchlist, whose message holds
  the address and the status of that feed; the run consists of one fetch for each court
  up to that one and of nothing else, the failed fetch happens once, and the file of the
  watermark is as before.
\<close>

theorem scrape_fetch_failure_fatal:
  assumes "distinct (map fst cases)"
    and "court \<in> fst ` set cases"
    and "status (fetch (feed_url court)) = Some code" and "code \<noteq> 200"
    and "\<forall>c\<in>fst ` set cases. status (fetch (feed_url c)) \<noteq> None"
    and "scrape cases fetch w = (r, w')"
  shows "\<exists>pre bad post code'.
           map fst cases = pre @ bad # post \<and> (\<forall>c\<in>set pre. ok_feed fetch c) \<and>
           status (fetch (feed_url bad)) = Some code' \<and> code' \<noteq> 200 \<and>
           r = Inl (Exception (''Getting PACER RSS feed '' @ href (fetch (feed_url bad)) @
                               '' failed with code '' @ str_int code' @ ''.'')) \<and>
           during w w' = fetch_events (pre @ [bad]) \<and>
           count_list (during w w') (Fetched (feed_url bad)) = 1 \<and>
           lasttime w' = lasttime w"
proof -
  from assms(3,4) have "\<not> ok_feed fetch court" by (simp add: ok_feed_def)
  with assms(2) have "\<not> (\<forall>c\<in>set (map fst cases). ok_feed fetch c)"
    by (metis list.set_map)
  then obtain pre bad post where sp: "map fst cases = pre @ bad # post"
    "\<forall>c\<in>set pre. ok_feed fetch c" "\<not> ok_feed fetch bad" by (rule first_bad)
  from sp(1) have "bad \<in> set (map fst cases)" by simp
  with assms(5) obtain code' where c: "status (fetch (feed_url bad)) = Some code'" by auto
  with sp(3) have ne: "code' \<noteq> 200" by (simp add: ok_feed_def)
  from scrape_fetch_fail[OF sp, of w] c assms(6)
  have r: "r = Inl (Exception (''Getting PACER RSS feed '' @ href (fetch (feed_url bad)) @
                               '' failed with code '' @ str_int code' @ ''.''))"
    and w': "w' = w\<lparr>trace := trace w @ fetch_events (pre @ [bad])\<rparr>" by auto
  from w' have d: "during w w' = fetch_events (pre @ [bad])" by (simp add: during_def)
  from assms(1) sp(1) have "bad \<notin> set pre" by auto
  then have "count_list (pre @ [bad]) bad = 1" by (simp add: count_list_0_iff)
  with d have "count_list (during w w') (Fetched (feed_url bad)) = 1"
    by (simp only: count_fetch_events)
  moreover from w' have "lasttime w' = lasttime w" by simp
  ultimately show ?thesis using sp(1,2) c ne r d by blast
qed

theorem scrape_fetch_failure_fatal_witness:
  "distinct (map fst ilnd_cases) \<and>
   status (not_found (feed_url ''ilnd'')) = Some 404 \<and>
   fst (scrape ilnd_cases not_found fresh_world) =
     Inl (Exception ''Getting PACER RSS feed https://ecf.ilnd.uscourts.gov/cgi-bin/rss_outside.pl failed with code 404.'') \<and>
   count_list (during fresh_world (snd (scrape ilnd_cases not_found fresh_world)))
     (Fetched (feed_url ''ilnd'')) = 1 \<and>
   lasttime (snd (scrape ilnd_cases not_found fresh_world)) = lasttime fresh_world"
proof -
  let ?r = "fst (scrape ilnd_cases not_found fresh_world)"
  let ?w1 = "snd (scrape ilnd_cases not_found fresh_world)"
  have 1: "distinct (map fst ilnd_cases)" by (simp add: ilnd_cases_def)
  have 2: "''ilnd'' \<in> fst ` set ilnd_cases" by (simp add: ilnd_cases_def)
  have 3: "status (not_found (feed_url ''ilnd'')) = Some 404" by (simp add: not_found_def)
  have 4: "(404::int) \<noteq> 200" by simp
  have 5: "\<forall>c\<in>fst ` set ilnd_cases. status (not_found (feed_url c)) \<noteq> None"
    by (simp add: not_found_def)
  have 6: "scrape ilnd_cases not_found fresh_world = (?r, ?w1)" by simp
  from scrape_fetch_failure_fatal[OF 1 2 3 4 5 6] obtain pre bad post code' where
    h: "map fst ilnd_cases = pre @ bad # post"
    "status (not_found (feed_url bad)) = Some code'"
    "?r = Inl (Exception (''Getting PACER RSS feed '' @ href (not_found (feed_url bad)) @
                               '' failed with code '' @ str_int code' @ ''.''))"
    "count_list (during fresh_world ?w1) (Fetched (feed_url bad)) = 1"
    "lasttime ?w1 = lasttime fresh_world" by blast
  from h(1) have "bad = ''ilnd''" by (cases pre) (simp_all add: ilnd_cases_def)
  moreover from h(2) have "code' = 404" by (simp add: not_found_def)
  ultimately have "?r = Inl (Exception ''Getting PACER RSS feed https://ecf.ilnd.uscourts.gov/cgi-bin/rss_outside.pl failed with code 404.'')"
    and "count_list (during fresh_world ?w1) (Fetched (feed_url ''ilnd'')) = 1"
    using h(3,4) by (simp_all add: not_found_def feed_url_def str_int_def str_nat.simps digit_chr_def)
  with 1 3 h(5) show ?thesis by simp
qed

text \<open>
  Claim C9 (absent storage is not an error). \<open>get_last_time\<close> returns 0 when the file
  of the watermark is missing or cannot be opened, and \<open>kill_switch_set\<close> returns
  \<open>False\<close> when the file of the kill switch is missing or cannot be opened.
\<close>

theorem persistence_absence:
  "(lasttime w = Missing \<or> lasttime w = Unreadable \<longrightarrow> fst (get_last_time w) = Inr 0) \<and>
   (killswitch w = Missing \<or> killswitch w = Unreadable \<longrightarrow> \<not> kill_switch_set w)"
  by (auto simp: get_last_time_def kill_switch_set_def)

theorem persistence_absence_witness:
  "fst (get_last_time fresh_world) = Inr 0 \<and>
   fst (get_last_time (fresh_world\<lparr>lasttime := Unreadable\<rparr>)) = Inr 0 \<and>
   \<not> kill_switch_set fresh_world \<and>
   \<not> kill_switch_set (fresh_world\<lparr>killswitch := Unreadable\<rparr>)"
proof -
  have "lasttime fresh_world = Missing" "killswitch fresh_world = Missing"
    "lasttime (fresh_world\<lparr>lasttime := Unreadable\<rparr>) = Unreadable"
    "killswitch (fresh_world\<lparr>killswitch := Unreadable\<rparr>) = Unreadable"
    by (simp_all add: fresh_world_def)
  with persistence_absence[of fresh_world]
    persistence_absence[of "fresh_world\<lparr>lasttime := Unreadable\<rparr>"]
    persistence_absence[of "fresh_world\<lparr>killswitch := Unreadable\<rparr>"]
  show ?thesis by blast
qed

text \<open>
  Claim C10 (fetches come first). The events of a run are fetches followed by events
  that are not fetches, and when anything follows the fetches, every watched court has
  been fetched. When the fetch of some watched court fails, the run ends in an exception,
  the file of the watermark is as before, and the run has neither read nor written the
  watermark nor called the notifier.
\<close>

theorem scrape_fetches_first:
  assumes "scrape cases fetch w = (r, w')"
  shows "(\<exists>courts rest. during w w' = fetch_events courts @ rest \<and> fetched rest = [] \<and>
            (rest \<noteq> [] \<longrightarrow> courts = map fst cases)) \<and>
         ((\<exists>c\<in>fst ` set cases. \<not> ok_feed fetch c) \<longrightarrow>
            (\<exists>err. r = Inl err) \<and> lasttime w' = lasttime w \<and> written (during w w') = [] \<and>
            notified (during w w') = [] \<and> Read_last_time \<notin> set (during w w'))"
proof (cases "\<forall>c\<in>set (map fst cases). ok_feed fetch c")
  case False
  then obtain pre bad post where sp: "map fst cases = pre @ bad # post"
    "\<forall>c\<in>set pre. ok_feed fetch c" "\<not> ok_feed fetch bad" by (rule first_bad)
  from scrape_fetch_fail[OF sp, of w] assms obtain err where
    r: "r = Inl err" and w': "w' = w\<lparr>trace := trace w @ fetch_events (pre @ [bad])\<rparr>" by auto
  from w' have d: "during w w' = fetch_events (pre @ [bad])" by (simp add: during_def)
  have "during w w' = fetch_events (pre @ [bad]) @ [] \<and> fetched [] = [] \<and>
          (([]::event list) \<noteq> [] \<longrightarrow> pre @ [bad] = map fst cases)"
    using d by simp
  then have 1: "\<exists>courts rest. during w w' = fetch_events courts @ rest \<and> fetched rest = [] \<and>
            (rest \<noteq> [] \<longrightarrow> courts = map fst cases)" by blast
  have "Read_last_time \<notin> set (fetch_events (pre @ [bad]))" by (auto simp: fetch_events_def)
  with r w' d 1 show ?thesis
    by (simp add: written_fetch_events notified_fetch_events)
next
  case True
  then have no: "\<not> (\<exists>c\<in>fst ` set cases. \<not> ok_feed fetch c)" by simp
  have "\<exists>rest. during w w' = fetch_events (map fst cases) @ rest \<and> fetched rest = []"
  proof (cases "watermark w")
    case (Inl err)
    from scrape_bad_time[OF True Inl] assms
    have "during w w' = fetch_events (map fst cases) @ [Read_last_time]"
      by (simp add: during_def)
    then show ?thesis by simp
  next
    case (Inr W)
    from scrape_ok(2)[OF True Inr] assms
    have "during w w' = fetch_events (map fst cases) @ [Read_last_time] @
            court_events cases W (map (\<lambda>c. (c, fetch (feed_url c))) (map fst cases))"
      by (simp add: during_def)
    moreover have "fetched ([Read_last_time] @
            court_events cases W (map (\<lambda>c. (c, fetch (feed_url c))) (map fst cases))) = []"
      by (simp add: fetched_court_events)
    ultimately show ?thesis by blast
  qed
  then have "\<exists>courts rest. during w w' = fetch_events courts @ rest \<and> fetched rest = [] \<and>
            (rest \<noteq> [] \<longrightarrow> courts = map fst cases)" by blast
  with no show ?thesis by blast
qed

theorem scrape_fetches_first_witness:
  "\<not> ok_feed not_found ''ilnd'' \<and>
   fst (scrape ilnd_cases not_found fresh_world) =
     Inl (Exception ''Getting PACER RSS feed https://ecf.ilnd.uscourts.gov/cgi-bin/rss_outside.pl failed with code 404.'') \<and>
   lasttime (snd (scrape ilnd_cases not_found fresh_world)) = lasttime fresh_world \<and>
   written (during fresh_world (snd (scrape ilnd_cases not_found fresh_world))) = [] \<and>
   notified (during fresh_world (snd (scrape ilnd_cases not_found fresh_world))) = [] \<and>
   Read_last_time \<notin> set (during fresh_world (snd (scrape ilnd_cases not_found fresh_world)))"
proof -
  let ?r = "fst (scrape ilnd_cases not_found fresh_world)"
  let ?w1 = "snd (scrape ilnd_cases not_found fresh_world)"
  have 1: "scrape ilnd_cases not_found fresh_world = (?r, ?w1)" by simp
  have 2: "\<not> ok_feed not_found ''ilnd''" by (simp add: ok_feed_def not_found_def)
  then have 3: "\<exists>c\<in>fst ` set ilnd_cases. \<not> ok_feed not_found c" by (simp add: ilnd_cases_def)
  have 4: "?r = Inl (Exception ''Getting PACER RSS feed https://ecf.ilnd.uscourts.gov/cgi-bin/rss_outside.pl failed with code 404.'')"
    unfolding not_found_run by simp
  from scrape_fetches_first[OF 1] 3
  have "lasttime ?w1 = lasttime fresh_world \<and> written (during fresh_world ?w1) = [] \<and>
        notified (during fresh_world ?w1) = [] \<and> Read_last_time \<notin> set (during fresh_world ?w1)"
    by blast
  with 2 4 show ?thesis by simp
qed

end
